theory Spec2Isabelle
  imports Complex_Main
begin

section \<open>Python strings\<close>

text \<open>
  A Python \<open>str\<close> is a sequence of Unicode code points, and \<open>len\<close> counts code
  points. A code point is a natural number here and a string a list of them.
  \<open>str\<close> writes an ASCII literal as such a list.
\<close>

type_synonym pystr = "nat list"

definition str :: "string \<Rightarrow> pystr" where
  "str s = map of_char s"

text \<open>
  The classification of the code points from 128 on is the Unicode character
  database of the interpreter. It is not part of the sources and is a parameter:
  \<open>uni_alnum\<close> for \<open>str.isalnum\<close>, \<open>uni_decimal\<close> for the class \<open>\d\<close> of
  \<open>re\<close>. Below 128 the classes are written out.
\<close>

record unicode_db =
  uni_alnum :: "nat \<Rightarrow> bool"
  uni_decimal :: "nat \<Rightarrow> bool"

definition isdecimal :: "unicode_db \<Rightarrow> nat \<Rightarrow> bool" where
  "isdecimal db c = (if c < 128 then 48 \<le> c \<and> c \<le> 57 else uni_decimal db c)"

definition isalnum :: "unicode_db \<Rightarrow> nat \<Rightarrow> bool" where
  "isalnum db c =
     (if c < 128 then (48 \<le> c \<and> c \<le> 57) \<or> (65 \<le> c \<and> c \<le> 90) \<or> (97 \<le> c \<and> c \<le> 122)
      else uni_alnum db c)"

text \<open>
  \<open>str.isspace\<close> for one code point, which is what \<open>strip\<close>, \<open>lstrip\<close> and
  \<open>rstrip\<close> without an argument remove: the ASCII controls 9 to 13 and 28 to 31,
  the space, and the Unicode spaces and line separators.
\<close>

definition isspace :: "nat \<Rightarrow> bool" where
  "isspace c =
     ((9 \<le> c \<and> c \<le> 13) \<or> (28 \<le> c \<and> c \<le> 32) \<or> c = 133 \<or> c = 160 \<or> c = 5760
      \<or> (8192 \<le> c \<and> c \<le> 8202) \<or> c = 8232 \<or> c = 8233 \<or> c = 8239 \<or> c = 8287
      \<or> c = 12288)"

definition lstrip :: "pystr \<Rightarrow> pystr" where
  "lstrip s = dropWhile isspace s"

definition rstrip :: "pystr \<Rightarrow> pystr" where
  "rstrip s = rev (dropWhile isspace (rev s))"

definition strip :: "pystr \<Rightarrow> pystr" where
  "strip s = lstrip (rstrip s)"

section \<open>File names\<close>

text \<open>
  \<^verbatim>\<open>return ''.join(c for c in text if c.isalnum() or c in (' ', '_', '-')).rstrip()\<close>
\<close>

definition keeps :: "unicode_db \<Rightarrow> nat \<Rightarrow> bool" where
  "keeps db c = (isalnum db c \<or> c = 32 \<or> c = 95 \<or> c = 45)"

definition clean_filename :: "unicode_db \<Rightarrow> pystr \<Rightarrow> pystr" where
  "clean_filename db text = rstrip (filter (keeps db) text)"

section \<open>Fonts\<close>

text \<open>
  Pillow is not part of the sources. A font is the built-in default font or a
  TrueType font given by its file and size; \<open>path_exists\<close> is \<open>os.path.exists\<close>,
  \<open>truetype_loads p s\<close> says that \<open>ImageFont.truetype(p, s)\<close> returns (and does
  not raise \<open>IOError\<close>), and \<open>getbbox\<close> is the measured box (left, top, right,
  bottom) of a line in a font; measuring and drawing are taken to return.
  \<open>symbol_for\<close> is the symbol the QR library builds for a payload, \<open>None\<close>
  when the payload exceeds the capacity.
\<close>

datatype font = Default_font | TrueType pystr int

type_synonym bbox = "int \<times> int \<times> int \<times> int"

record qrcode =
  modules :: nat
  micro :: bool

record env =
  unicode :: unicode_db
  path_exists :: "pystr \<Rightarrow> bool"
  truetype_loads :: "pystr \<Rightarrow> int \<Rightarrow> bool"
  getbbox :: "font \<Rightarrow> pystr \<Rightarrow> bbox"
  symbol_for :: "pystr \<Rightarrow> qrcode option"

text \<open>
  \<open>get_font\<close>: without a path, with a path that does not exist, and when loading
  raises \<open>IOError\<close>, the result is \<open>ImageFont.load_default()\<close>, which takes no
  size. The messages printed on the way are left out.
\<close>

definition get_font :: "env \<Rightarrow> pystr option \<Rightarrow> int \<Rightarrow> font" where
  "get_font e font_path font_size =
     (case font_path of
        None \<Rightarrow> Default_font
      | Some p \<Rightarrow>
          if \<not> path_exists e p then Default_font
          else if truetype_loads e p font_size then TrueType p font_size
          else Default_font)"

definition line_width :: "env \<Rightarrow> font \<Rightarrow> pystr \<Rightarrow> int" where
  "line_width e f line = (case getbbox e f line of (x0, y0, x1, y1) \<Rightarrow> x1 - x0)"

definition line_height :: "env \<Rightarrow> font \<Rightarrow> pystr \<Rightarrow> int" where
  "line_height e f line = (case getbbox e f line of (x0, y0, x1, y1) \<Rightarrow> y1 - y0)"

section \<open>The QR encoder\<close>

datatype error = EncodingError

text \<open>
  Modelled from the spec: the encoding library (\<open>segno.make\<close>) is not among the
  sources. The spec (4.1) says of it that it fails with an \<open>EncodingError\<close> when
  given an empty or otherwise unencodable payload, the library enforcing the
  symbol capacity. \<open>build\<close> is the symbol the library builds for a payload within
  capacity.
\<close>

definition segno_make :: "(pystr \<Rightarrow> qrcode option) \<Rightarrow> pystr \<Rightarrow> error + qrcode" where
  "segno_make build content =
     (if content = [] then Inl EncodingError
      else case build content of None \<Rightarrow> Inl EncodingError | Some qr \<Rightarrow> Inr qr)"

text \<open>
  \<open>QRCode.symbol_size(scale, border)\<close>: the matrix and the quiet zone on both
  sides, times the scale. Without a border the quiet zone is the default one, 4
  modules, and 2 for a Micro QR code.
\<close>

definition default_border :: "qrcode \<Rightarrow> nat" where
  "default_border qr = (if micro qr then 2 else 4)"

definition symbol_size :: "qrcode \<Rightarrow> int \<Rightarrow> nat option \<Rightarrow> int \<times> int" where
  "symbol_size qr scale border =
     (let b = (case border of None \<Rightarrow> default_border qr | Some b \<Rightarrow> b);
          d = (int (modules qr) + 2 * int b) * scale
      in (d, d))"

record image =
  img_width :: int
  img_height :: int

text \<open>
  \<^verbatim>\<open>width, height = qr.symbol_size(scale=1)
  scale = qr_size // width
  scale = max(scale, 1)\<close>
  The width is at least 4 (the quiet zone), so the division never raises.
\<close>

definition qr_scale :: "qrcode \<Rightarrow> int \<Rightarrow> int" where
  "qr_scale qr qr_size =
     (case symbol_size qr 1 None of (width, height) \<Rightarrow> max (qr_size div width) 1)"

text \<open>
  \<open>create_qr_code\<close>: an exception of \<open>segno.make\<close> is not caught. The PNG is
  written at the computed scale with a border of 4 modules, and the image opened
  from it has the size of the symbol at that scale and border.
\<close>

definition create_qr_code :: "env \<Rightarrow> pystr \<Rightarrow> int \<Rightarrow> error + image" where
  "create_qr_code e url qr_size =
     (case segno_make (symbol_for e) url of
        Inl err \<Rightarrow> Inl err
      | Inr qr \<Rightarrow>
          (case symbol_size qr (qr_scale qr qr_size) (Some 4) of
             (w, h) \<Rightarrow> Inr \<lparr>img_width = w, img_height = h\<rparr>))"

section \<open>Word wrapping\<close>

text \<open>
  \<open>textwrap.TextWrapper(width=w).wrap(text)\<close> of the standard library (CPython
  3.10 and later), with the options the source leaves at their defaults:
  \<open>expand_tabs\<close>, \<open>replace_whitespace\<close>, \<open>drop_whitespace\<close>, \<open>break_long_words\<close>
  and \<open>break_on_hyphens\<close> set, tab size 8, no indent, no limit on the lines.
  The source builds wrappers of width 30 and 60 only; \<open>wrap\<close> raises
  \<open>ValueError\<close> for a width below 1, which is not modelled.
\<close>

text \<open>The whitespace of \<open>textwrap\<close>: tab, newline, vertical tab, form feed, return, space.\<close>

definition ws6 :: "nat \<Rightarrow> bool" where
  "ws6 c = (c = 9 \<or> c = 10 \<or> c = 11 \<or> c = 12 \<or> c = 13 \<or> c = 32)"

text \<open>\<open>str.expandtabs(tabsize)\<close>, the column starting again after a newline or a return.\<close>

fun expandtabs :: "nat \<Rightarrow> nat \<Rightarrow> pystr \<Rightarrow> pystr" where
  "expandtabs tabsize col [] = []"
| "expandtabs tabsize col (c # cs) =
     (if c = 9 then
        (if 0 < tabsize then
           replicate (tabsize - col mod tabsize) 32
             @ expandtabs tabsize (col + (tabsize - col mod tabsize)) cs
         else expandtabs tabsize col cs)
      else c # expandtabs tabsize (if c = 10 \<or> c = 13 then 0 else col + 1) cs)"

definition munge_whitespace :: "pystr \<Rightarrow> pystr" where
  "munge_whitespace text = map (\<lambda>c. if ws6 c then 32 else c) (expandtabs 8 0 text)"

text \<open>
  The classes of \<open>wordsep_re\<close>: \<open>\w\<close>, the letters \<open>[^\d\W]\<close>, and the word
  punctuation \<open>[\w!"'&.,?]\<close>.
\<close>

definition word_char :: "unicode_db \<Rightarrow> nat \<Rightarrow> bool" where
  "word_char db c = (isalnum db c \<or> c = 95)"

definition letter :: "unicode_db \<Rightarrow> nat \<Rightarrow> bool" where
  "letter db c = (word_char db c \<and> \<not> isdecimal db c)"

definition word_punct :: "unicode_db \<Rightarrow> nat \<Rightarrow> bool" where
  "word_punct db c =
     (word_char db c \<or> c = 33 \<or> c = 34 \<or> c = 39 \<or> c = 38 \<or> c = 46 \<or> c = 44 \<or> c = 63)"

text \<open>
  \<open>-{2,}(?=\w)\<close> at the start of \<open>rest\<close>: the run of hyphens there has at least two
  of them and a word character follows it.
\<close>

definition emdash_ahead :: "unicode_db \<Rightarrow> pystr \<Rightarrow> bool" where
  "emdash_ahead db rest =
     (2 \<le> length (takeWhile (\<lambda>c. c = 45) rest)
      \<and> (case dropWhile (\<lambda>c. c = 45) rest of [] \<Rightarrow> False | c # _ \<Rightarrow> word_char db c))"

text \<open>
  The hyphen of a hyphenated word,
  \<open>-(?: (?<=lt{2}-) | (?<=lt-lt-)) (?= lt -? lt)\<close>, at the start of \<open>rest\<close>;
  \<open>prev\<close> is the text before it, nearest character first.
\<close>

definition hyphen_break :: "unicode_db \<Rightarrow> pystr \<Rightarrow> pystr \<Rightarrow> bool" where
  "hyphen_break db prev rest =
     (case rest of
        h # l1 # r2 \<Rightarrow>
          h = 45
          \<and> (case prev of
                b1 # b2 # bs \<Rightarrow>
                  letter db b1
                  \<and> (letter db b2
                       \<or> (b2 = 45 \<and> (case bs of [] \<Rightarrow> False | b3 # _ \<Rightarrow> letter db b3)))
              | _ \<Rightarrow> False)
          \<and> letter db l1
          \<and> (case r2 of
                [] \<Rightarrow> False
              | x # r3 \<Rightarrow>
                  letter db x
                  \<or> (x = 45 \<and> (case r3 of [] \<Rightarrow> False | y # _ \<Rightarrow> letter db y)))
      | _ \<Rightarrow> False)"

text \<open>
  The third alternative of \<open>wordsep_re\<close>, a word: the characters matched so far
  are the head of \<open>prev\<close>, and the result is how many characters of \<open>rest\<close> the
  match takes in addition. The non-greedy \<open>[^ws]+?\<close> stops at the first length
  where the hyphen of a hyphenated word (taken into the match), the end of the
  word, or an em-dash ahead is found, tried in this order.
\<close>

fun word_more :: "unicode_db \<Rightarrow> pystr \<Rightarrow> pystr \<Rightarrow> nat" where
  "word_more db prev [] = 0"
| "word_more db prev (c # cs) =
     (if hyphen_break db prev (c # cs) then 1
      else if ws6 c then 0
      else if (case prev of [] \<Rightarrow> False | b # _ \<Rightarrow> word_punct db b) \<and> emdash_ahead db (c # cs)
      then 0
      else Suc (word_more db (c # prev) cs))"

text \<open>
  \<open>wordsep_re.split(text)\<close> without the empty strings: every position starts a
  match, which is a run of whitespace, an em-dash between words, or a word.
\<close>

fun split_chunks :: "unicode_db \<Rightarrow> pystr \<Rightarrow> pystr \<Rightarrow> pystr list" where
  "split_chunks db prev [] = []"
| "split_chunks db prev (c # cs) =
     (let more =
            (if ws6 c then length (takeWhile ws6 cs)
             else if (case prev of [] \<Rightarrow> False | b # _ \<Rightarrow> word_punct db b)
                     \<and> emdash_ahead db (c # cs)
             then length (takeWhile (\<lambda>x. x = 45) cs)
             else word_more db (c # prev) cs);
          chunk = c # take more cs
      in chunk # split_chunks db (rev chunk @ prev) (drop more cs))"

text \<open>
  \<open>_handle_long_word\<close> with \<open>break_long_words\<close>: how much of a chunk that is longer
  than the width goes on the current line. It is the space left on the line, or,
  when a hyphen with a character other than a hyphen before it stands in that
  part of the chunk, the part up to and including the last such hyphen.
  \<open>rfind_hyphen chunk stop\<close> is \<open>chunk.rfind('-', 0, stop)\<close>.
\<close>

definition rfind_hyphen :: "pystr \<Rightarrow> nat \<Rightarrow> nat option" where
  "rfind_hyphen chunk stop =
     (case filter (\<lambda>i. chunk ! i = 45) (rev [0..<min stop (length chunk)]) of
        [] \<Rightarrow> None
      | i # _ \<Rightarrow> Some i)"

definition long_word_end :: "nat \<Rightarrow> nat \<Rightarrow> pystr \<Rightarrow> nat" where
  "long_word_end width cur_len chunk =
     (let space_left = (if width < 1 then 1 else width - cur_len)
      in if space_left < length chunk then
           (case rfind_hyphen chunk space_left of
              None \<Rightarrow> space_left
            | Some hyphen \<Rightarrow>
                if 0 < hyphen \<and> list_ex (\<lambda>c. c \<noteq> 45) (take hyphen chunk) then hyphen + 1
                else space_left)
         else space_left)"

text \<open>
  The inner loop of \<open>_wrap_chunks\<close>: chunks go on the current line while they
  fit. The result is the line's chunks and the chunks left.
\<close>

fun fill_line :: "nat \<Rightarrow> nat \<Rightarrow> pystr list \<Rightarrow> pystr list \<times> pystr list" where
  "fill_line width cur_len [] = ([], [])"
| "fill_line width cur_len (c # cs) =
     (if cur_len + length c \<le> width then
        (case fill_line width (cur_len + length c) cs of (line, rest) \<Rightarrow> (c # line, rest))
      else ([], c # cs))"

text \<open>
  \<open>_handle_long_word\<close> itself, on the current line and the chunks left (which
  are not empty where it is called): the first part of the long chunk goes on
  the line, the other part stays in its place.
\<close>

definition handle_long_word :: "nat \<Rightarrow> pystr list \<Rightarrow> pystr list \<Rightarrow> pystr list \<times> pystr list" where
  "handle_long_word width cur_line chunks =
     (case chunks of
        [] \<Rightarrow> (cur_line, [])
      | r # rs \<Rightarrow>
          (let e = long_word_end width (sum_list (map length cur_line)) r
           in (cur_line @ [take e r], drop e r # rs)))"

text \<open>The last chunk of the current line is dropped when it is blank.\<close>

definition drop_blank_end :: "pystr list \<Rightarrow> pystr list" where
  "drop_blank_end cur_line =
     (if cur_line \<noteq> [] \<and> strip (last cur_line) = [] then butlast cur_line else cur_line)"

text \<open>
  One pass of the outer loop of \<open>_wrap_chunks\<close> over chunks that are not empty:
  a blank chunk at the start of a line other than the first is dropped, the line
  is filled, a chunk longer than the width is broken, a blank chunk at the end
  of the line is dropped, and a line that is not empty is produced.
  \<open>have_lines\<close> says that a line was produced before.
\<close>

definition wrap_pass :: "nat \<Rightarrow> bool \<Rightarrow> pystr list \<Rightarrow> pystr list \<times> pystr list" where
  "wrap_pass width have_lines chunks =
     (let chunks1 = (if strip (hd chunks) = [] \<and> have_lines then tl chunks else chunks);
          (cur_line, rest) = fill_line width 0 chunks1;
          (cur_line2, rest2) =
            (if rest \<noteq> [] \<and> width < length (hd rest)
             then handle_long_word width cur_line rest
             else (cur_line, rest));
          cur_line3 = drop_blank_end cur_line2
      in (if cur_line3 \<noteq> [] then [concat cur_line3] else [], rest2))"

definition chunks_size :: "pystr list \<Rightarrow> nat" where
  "chunks_size chunks = sum_list (map length chunks) + length chunks"

lemma fill_line_append: "fill_line w n cs = (line, rest) \<Longrightarrow> cs = line @ rest"
  by (induction cs arbitrary: n line rest) (auto split: if_splits prod.splits)

lemma fill_line_none: "fill_line w n (c # cs) = ([], rest) \<Longrightarrow> w < n + length c"
  by (auto split: if_splits prod.splits)

lemma long_word_end_pos: "w < length c \<Longrightarrow> 0 < long_word_end w 0 c"
  by (auto simp: long_word_end_def Let_def split: option.splits)

lemma wrap_pass_eq:
  assumes "fill_line w 0 (if strip (hd chunks) = [] \<and> b then tl chunks else chunks) = (line, r1)"
  shows "wrap_pass w b chunks =
           (if drop_blank_end (fst (if r1 \<noteq> [] \<and> w < length (hd r1)
                                    then handle_long_word w line r1 else (line, r1))) \<noteq> []
            then [concat (drop_blank_end (fst (if r1 \<noteq> [] \<and> w < length (hd r1)
                                               then handle_long_word w line r1 else (line, r1))))]
            else [],
            snd (if r1 \<noteq> [] \<and> w < length (hd r1)
                 then handle_long_word w line r1 else (line, r1)))"
  unfolding wrap_pass_def Let_def assms by (simp add: case_prod_beta)

lemma wrap_pass_less:
  assumes "chunks \<noteq> []" and "wrap_pass w b chunks = (out, rest)"
  shows "chunks_size rest < chunks_size chunks"
proof -
  define chunks1 where "chunks1 = (if strip (hd chunks) = [] \<and> b then tl chunks else chunks)"
  obtain line r1 where fl: "fill_line w 0 chunks1 = (line, r1)"
    by (cases "fill_line w 0 chunks1") auto
  have app: "chunks1 = line @ r1"
    using fl by (rule fill_line_append)
  have size1: "chunks_size chunks1 \<le> chunks_size chunks"
    using assms(1) by (cases chunks) (simp_all add: chunks1_def chunks_size_def)
  have rest_eq:
    "rest = snd (if r1 \<noteq> [] \<and> w < length (hd r1)
                 then handle_long_word w line r1 else (line, r1))"
    using assms(2) wrap_pass_eq[OF fl[unfolded chunks1_def]] by simp
  have le: "chunks_size rest \<le> chunks_size r1"
    by (cases r1) (auto simp: rest_eq chunks_size_def handle_long_word_def Let_def)
  show ?thesis
  proof (cases "strip (hd chunks) = [] \<and> b")
    case True
    then have "chunks_size chunks1 < chunks_size chunks"
      using assms(1) by (cases chunks) (simp_all add: chunks1_def chunks_size_def)
    moreover have "chunks_size r1 \<le> chunks_size chunks1"
      by (simp add: app chunks_size_def)
    ultimately show ?thesis using le by simp
  next
    case False
    then have c1: "chunks1 = chunks" by (auto simp: chunks1_def)
    show ?thesis
    proof (cases line)
      case Nil
      obtain c cs where chunks: "chunks = c # cs"
        using assms(1) by (cases chunks) auto
      have r1: "r1 = c # cs" using app c1 Nil chunks by simp
      have long: "w < length c"
        using fl fill_line_none[of w 0 c cs r1] by (simp add: c1 Nil chunks)
      then have "rest = drop (long_word_end w 0 c) c # cs"
        using r1 Nil by (simp add: rest_eq handle_long_word_def Let_def)
      moreover have "0 < long_word_end w 0 c" using long by (rule long_word_end_pos)
      ultimately show ?thesis using long by (simp add: chunks chunks_size_def)
    next
      case (Cons l ls)
      then have "chunks_size r1 < chunks_size chunks1"
        by (simp add: app chunks_size_def)
      then show ?thesis using le size1 by simp
    qed
  qed
qed

text \<open>\<open>_wrap_chunks\<close>: passes until no chunk is left.\<close>

function wrap_chunks :: "nat \<Rightarrow> pystr list \<Rightarrow> pystr list \<Rightarrow> pystr list" where
  "wrap_chunks width lines chunks =
     (if chunks = [] then lines
      else (case wrap_pass width (lines \<noteq> []) chunks of
              (out, rest) \<Rightarrow> wrap_chunks width (lines @ out) rest))"
  by pat_completeness auto
termination
  by (relation "measure (\<lambda>(width, lines, chunks). chunks_size chunks)")
     (auto dest: wrap_pass_less [OF _ sym])

declare wrap_chunks.simps [simp del]

definition wrap :: "unicode_db \<Rightarrow> nat \<Rightarrow> pystr \<Rightarrow> pystr list" where
  "wrap db width text = wrap_chunks width [] (split_chunks db [] (munge_whitespace text))"

section \<open>Page composition\<close>

text \<open>
  The page is the canvas size and what was drawn on it, in order: a line of
  text at a position in a font, or an image pasted at a position. The
  horizontal position of a line is \<open>(page_width - line_width) / 2\<close>, a true
  division.
\<close>

datatype draw_op = Draw_text rat int pystr font | Paste_image int int image

record page =
  canvas :: "int \<times> int"
  ops :: "draw_op list"

text \<open>
  The loops that position the title and the URL: each line is centred at the
  current height, which then moves down by the height of the line and the gap
  between lines (20 for the title, 10 for the URL).
\<close>

fun draw_lines :: "env \<Rightarrow> font \<Rightarrow> int \<Rightarrow> int \<Rightarrow> int \<Rightarrow> pystr list \<Rightarrow> draw_op list \<times> int" where
  "draw_lines e f page_w gap current_y [] = ([], current_y)"
| "draw_lines e f page_w gap current_y (line # rest) =
     (let x_text = of_int (page_w - line_width e f line) / 2
      in case draw_lines e f page_w gap (current_y + line_height e f line + gap) rest of
           (drawn, y) \<Rightarrow> (Draw_text x_text current_y line f # drawn, y))"

text \<open>
  The \<open>for\<close> loop inside the shrink-to-fit loop: \<open>fits\<close> becomes false at the
  first line that is wider than the text width while the font size is above 40.
\<close>

fun lines_fit :: "env \<Rightarrow> font \<Rightarrow> int \<Rightarrow> int \<Rightarrow> pystr list \<Rightarrow> bool" where
  "lines_fit e url_font max_text_width font_size [] = True"
| "lines_fit e url_font max_text_width font_size (line # rest) =
     (if max_text_width < line_width e url_font line \<and> 40 < font_size then False
      else lines_fit e url_font max_text_width font_size rest)"

text \<open>
  The shrink-to-fit loop (\<open>while True\<close>), from the font size and the wrapped
  lines it starts a pass with to those it ends with:
  \<^verbatim>\<open>url_font = get_font(font_path, font_size)
  fits = ...
  if fits or font_size <= 40: break
  font_size -= 2
  wrapped_url = wrapper.wrap(text=url)\<close>
\<close>

function fit_url :: "env \<Rightarrow> pystr option \<Rightarrow> pystr \<Rightarrow> int \<Rightarrow> int \<Rightarrow> pystr list \<Rightarrow> int \<times> pystr list" where
  "fit_url e font_path url max_text_width font_size wrapped_url =
     (if lines_fit e (get_font e font_path font_size) max_text_width font_size wrapped_url
         \<or> font_size \<le> 40
      then (font_size, wrapped_url)
      else fit_url e font_path url max_text_width (font_size - 2) (wrap (unicode e) 60 url))"
  by pat_completeness auto
termination
  by (relation "measure (\<lambda>(e, font_path, url, max_text_width, font_size, wrapped_url).
        nat (font_size - 40))") auto

declare fit_url.simps [simp del]

text \<open>
  The number of passes of the loop, counted along the same recursion. The
  source keeps no such counter; it is what the bound on the passes is stated
  about.
\<close>

function fit_url_passes :: "env \<Rightarrow> pystr option \<Rightarrow> pystr \<Rightarrow> int \<Rightarrow> int \<Rightarrow> pystr list \<Rightarrow> nat" where
  "fit_url_passes e font_path url max_text_width font_size wrapped_url =
     (if lines_fit e (get_font e font_path font_size) max_text_width font_size wrapped_url
         \<or> font_size \<le> 40
      then 1
      else Suc (fit_url_passes e font_path url max_text_width (font_size - 2)
                  (wrap (unicode e) 60 url)))"
  by pat_completeness auto
termination
  by (relation "measure (\<lambda>(e, font_path, url, max_text_width, font_size, wrapped_url).
        nat (font_size - 40))") auto

declare fit_url_passes.simps [simp del]

text \<open>
  \<open>create_full_page_image\<close>. The title is wrapped at 30 characters and drawn
  from the top margin; the QR code of 2000 pixels is put 100 pixels below it
  inside a border of 20 pixels; the URL is wrapped at 60 characters, fitted, and
  drawn 100 pixels below the bordered code. The sums of the line heights that
  the source computes and never reads are left out, and so is \<open>save_to_dir\<close>,
  which the function does not use.
\<close>

definition create_full_page_image :: "env \<Rightarrow> pystr \<Rightarrow> pystr \<Rightarrow> pystr option \<Rightarrow> int \<times> int \<Rightarrow> error + page" where
  "create_full_page_image e title url font_path page_size =
     (let top_margin = 300;
          side_margin = 300;
          title_font = get_font e font_path 150;
          max_text_width = fst page_size - 2 * side_margin;
          wrapped_title = wrap (unicode e) 30 title;
          (title_ops, y1) = draw_lines e title_font (fst page_size) 20 top_margin wrapped_title
      in case create_qr_code e url 2000 of
           Inl err \<Rightarrow> Inl err
         | Inr img_qr \<Rightarrow>
             (let qr_x = (fst page_size - img_width img_qr) div 2;
                  qr_y = y1 + 100;
                  border_size = 20;
                  bordered_qr = \<lparr>img_width = img_width img_qr + 2 * border_size,
                                 img_height = img_height img_qr + 2 * border_size\<rparr>;
                  y2 = qr_y + img_height bordered_qr + 100;
                  (font_size, wrapped_url) =
                     fit_url e font_path url max_text_width 80 (wrap (unicode e) 60 url);
                  url_font = get_font e font_path font_size;
                  (url_ops, y3) = draw_lines e url_font (fst page_size) 10 y2 wrapped_url
              in Inr \<lparr>canvas = page_size,
                      ops = title_ops
                            @ [Paste_image (qr_x - border_size) (qr_y - border_size) bordered_qr]
                            @ url_ops\<rparr>))"

section \<open>The batch\<close>

text \<open>
  What \<open>process_csv\<close> prints, in order, and the files it has written into the
  output directory, by file name. Reading the CSV file and creating the output
  directory are outside the model: the rows are the list \<open>csv.reader\<close> gives.
  Saving an image is taken to succeed; a file saved under a name that is in use
  replaces the earlier one.
\<close>

datatype event =
    Skipping_invalid nat nat "pystr list"
  | Skipping_empty_url nat nat pystr
  | Processing nat nat pystr pystr
  | Saved pystr
  | All_created

record run =
  printed :: "event list"
  files :: "pystr \<rightharpoonup> page"

text \<open>
  The body of the loop over the rows for one row. An exception of
  \<open>create_full_page_image\<close> is not caught: it ends the batch (\<open>Inl\<close>), with
  what was printed and written so far.
\<close>

definition process_entry :: "env \<Rightarrow> pystr option \<Rightarrow> nat \<Rightarrow> nat \<Rightarrow> pystr list \<Rightarrow> run \<Rightarrow> (error \<times> run) + run" where
  "process_entry e font_path total_entries index entry st =
     (if length entry < 2 then
        Inr (st\<lparr>printed := printed st @ [Skipping_invalid index total_entries entry]\<rparr>)
      else
        (let title = strip (entry ! 0); url = strip (entry ! 1)
         in if url = [] then
              Inr (st\<lparr>printed := printed st @ [Skipping_empty_url index total_entries title]\<rparr>)
            else
              (let st1 = st\<lparr>printed := printed st @ [Processing index total_entries title url]\<rparr>
               in case create_full_page_image e title url font_path (2550, 3300) of
                    Inl err \<Rightarrow> Inl (err, st1)
                  | Inr img \<Rightarrow>
                      (let clean_title = clean_filename (unicode e) title;
                           filename = clean_title @ str ''.png''
                       in Inr (st1\<lparr>printed := printed st1 @ [Saved filename],
                                   files := (files st1)(filename \<mapsto> img)\<rparr>)))))"





section \<open>Words\<close>

text \<open>
  The words of a text as \<open>textwrap\<close> sees them: the maximal runs of characters
  other than its whitespace, in order. The wrapper does not compute them; they
  are what the properties of the wrapped lines are stated about.
\<close>

function words6 :: "pystr \<Rightarrow> pystr list" where
  "words6 [] = []"
| "words6 (c # cs) =
     (if ws6 c then words6 cs
      else (c # takeWhile (\<lambda>x. \<not> ws6 x) cs) # words6 (dropWhile (\<lambda>x. \<not> ws6 x) cs))"
  by pat_completeness auto
termination
  by (relation "measure length") (auto simp: length_dropWhile_le less_Suc_eq_le)

text \<open>
  Notions for the proofs about \<open>_wrap_chunks\<close>. A chunk is \<open>wordy\<close> when it starts
  with a character that is not whitespace. A list of chunks is \<open>good\<close> for a width
  when every chunk is a run of whitespace or a run without whitespace that is no
  longer than the width and is followed by whitespace; it is \<open>plain\<close> when its
  only whitespace characters are those of \<open>textwrap\<close>; it has a \<open>solid_end\<close> when
  its last chunk ends in a character that is not whitespace.
\<close>

definition wordy :: "pystr \<Rightarrow> bool" where
  "wordy c = (c \<noteq> [] \<and> \<not> ws6 (hd c))"

fun good :: "nat \<Rightarrow> pystr list \<Rightarrow> bool" where
  "good w [] = True"
| "good w (c # cs) =
     (c \<noteq> []
      \<and> ((\<forall>x \<in> set c. ws6 x)
           \<or> ((\<forall>x \<in> set c. \<not> ws6 x) \<and> length c \<le> w \<and> (cs = [] \<or> ws6 (hd (hd cs)))))
      \<and> good w cs)"

definition plain :: "pystr list \<Rightarrow> bool" where
  "plain cs = (\<forall>c \<in> set cs. \<forall>x \<in> set c. isspace x \<longrightarrow> ws6 x)"

definition solid_end :: "pystr list \<Rightarrow> bool" where
  "solid_end chunks = (chunks \<noteq> [] \<and> last chunks \<noteq> [] \<and> \<not> isspace (last (last chunks)))"

section \<open>A sample environment\<close>

text \<open>
  An interpreter whose character database classifies nothing beyond ASCII, and
  an environment to run the functions in: one font file, \<open>font.ttf\<close>, whose
  glyphs are as wide and as high as the font size; the default font with glyphs
  of 6 by 11 pixels; and QR symbols of the smallest of the versions 1 to 40 that
  holds the payload as bytes at error correction level H (a symbol of version
  \<open>v\<close> has \<open>17 + 4 * v\<close> modules a side), none when the payload has more than
  1273 characters.
\<close>

definition ascii_db :: unicode_db where
  "ascii_db = \<lparr>uni_alnum = (\<lambda>c. False), uni_decimal = (\<lambda>c. False)\<rparr>"

definition byte_capacity_h :: "nat list" where
  "byte_capacity_h =
     [7, 14, 24, 34, 44, 58, 64, 84, 98, 119, 137, 155, 177, 194, 220, 250, 280, 310, 338, 382,
      403, 439, 461, 511, 535, 593, 625, 658, 698, 742, 790, 842, 898, 958, 983, 1051, 1093,
      1139, 1219, 1273]"

definition demo_symbol :: "pystr \<Rightarrow> qrcode option" where
  "demo_symbol content =
     (let v = Suc (length (takeWhile (\<lambda>cap. cap < length content) byte_capacity_h))
      in if v \<le> 40 then Some \<lparr>modules = 17 + 4 * v, micro = False\<rparr> else None)"

definition demo_env :: env where
  "demo_env =
     \<lparr>unicode = ascii_db,
      path_exists = (\<lambda>p. p = str ''font.ttf''),
      truetype_loads = (\<lambda>p s. p = str ''font.ttf''),
      getbbox = (\<lambda>f line. case f of
                   Default_font \<Rightarrow> (0, 0, 6 * int (length line), 11)
                 | TrueType p s \<Rightarrow> (0, 0, s * int (length line), s)),
      symbol_for = demo_symbol\<rparr>"

lemmas eval_defs =
  wrap_def munge_whitespace_def ws6_def word_punct_def word_char_def isalnum_def
  isdecimal_def emdash_ahead_def hyphen_break_def letter_def wrap_pass_def
  handle_long_word_def drop_blank_end_def strip_def lstrip_def rstrip_def isspace_def
  Let_def long_word_end_def rfind_hyphen_def str_def keeps_def clean_filename_def
  ascii_db_def demo_env_def get_font_def line_width_def line_height_def segno_make_def
  create_qr_code_def symbol_size_def default_border_def qr_scale_def wrap_chunks.simps
  demo_symbol_def byte_capacity_h_def

section \<open>File names: properties\<close>

lemma set_rstrip: "set (rstrip s) \<subseteq> set s"
proof -
  have "set (dropWhile isspace (rev s)) \<subseteq> set (rev s)"
    by (auto dest: set_dropWhileD)
  then show ?thesis by (simp add: rstrip_def)
qed

lemma set_strip: "set (strip s) \<subseteq> set s"
proof -
  have "set (strip s) \<subseteq> set (rstrip s)"
    by (auto simp: strip_def lstrip_def dest: set_dropWhileD)
  then show ?thesis using set_rstrip[of s] by blast
qed

lemma rstrip_idem: "rstrip (rstrip s) = rstrip s"
  by (simp add: rstrip_def dropWhile_idem)

lemma rstrip_nil_iff: "rstrip s = [] \<longleftrightarrow> (\<forall>c \<in> set s. isspace c)"
  by (simp add: rstrip_def dropWhile_eq_Nil_conv)

lemma clean_filename_nil:
  assumes "\<forall>c \<in> set title. \<not> isalnum db c \<and> c \<noteq> 95 \<and> c \<noteq> 45"
  shows "clean_filename db title = []"
proof -
  have "\<forall>c \<in> set (filter (keeps db) title). isspace c"
    using assms by (auto simp: keeps_def isspace_def)
  then show ?thesis by (simp add: clean_filename_def rstrip_nil_iff)
qed

text \<open>
  Claim C3, as the code has it: for every title, the result of \<open>clean_filename\<close>
  contains only alphanumeric characters, spaces (32), underscores (95) and
  hyphens (45), and has no trailing whitespace: \<open>rstrip\<close> leaves it as it is.
  Leading spaces stay, since the function strips on the right only.
\<close>

theorem clean_filename_allowed_rstripped:
  "(\<forall>c \<in> set (clean_filename db title). isalnum db c \<or> c = 32 \<or> c = 95 \<or> c = 45)
   \<and> rstrip (clean_filename db title) = clean_filename db title"
proof
  have "set (clean_filename db title) \<subseteq> set (filter (keeps db) title)"
    unfolding clean_filename_def by (rule set_rstrip)
  then show "\<forall>c \<in> set (clean_filename db title). isalnum db c \<or> c = 32 \<or> c = 95 \<or> c = 45"
    by (auto simp: keeps_def)
  show "rstrip (clean_filename db title) = clean_filename db title"
    by (simp add: clean_filename_def rstrip_idem)
qed

theorem clean_filename_allowed_rstripped_witness:
  "list_all (\<lambda>c. isalnum ascii_db c \<or> c = 32 \<or> c = 95 \<or> c = 45)
     (clean_filename ascii_db (str ''Event: Registration! ''))
   \<and> clean_filename ascii_db (str ''Event: Registration! '') = str ''Event Registration''
   \<and> rstrip (str ''Event Registration'') = str ''Event Registration''"
  using clean_filename_allowed_rstripped [of ascii_db "str ''Event: Registration! ''"]
  by (simp add: list_all_iff clean_filename_def str_def keeps_def isalnum_def rstrip_def
      isspace_def ascii_db_def)

text \<open>
  Claim C3 as stated fails: the title \<open>! a\<close> is not empty and has no whitespace
  at either end, and its file name is \<open> a\<close>, with a leading space, which
  \<open>strip\<close> would remove.
\<close>

theorem clean_filename_leading_space_counterexample:
  "str ''! a'' \<noteq> []
   \<and> strip (str ''! a'') = str ''! a''
   \<and> clean_filename ascii_db (str ''! a'') = str '' a''
   \<and> isspace (hd (clean_filename ascii_db (str ''! a'')))
   \<and> strip (clean_filename ascii_db (str ''! a'')) \<noteq> clean_filename ascii_db (str ''! a'')"
  by (simp add: clean_filename_def str_def keeps_def isalnum_def strip_def lstrip_def
      rstrip_def isspace_def ascii_db_def)

section \<open>The QR encoder: properties\<close>

lemma symbol_width_pos: "0 < fst (symbol_size qr 1 None)"
  by (simp add: symbol_size_def default_border_def Let_def)

lemma qr_scale_floor:
  "qr_scale qr qr_size =
     (if 1 \<le> \<lfloor>real_of_int qr_size / real_of_int (fst (symbol_size qr 1 None))\<rfloor>
      then \<lfloor>real_of_int qr_size / real_of_int (fst (symbol_size qr 1 None))\<rfloor> else 1)
   \<and> 1 \<le> qr_scale qr qr_size"
  by (auto simp: qr_scale_def floor_divide_of_int_eq split: prod.splits)

lemma qr_scale_mono:
  assumes "n1 \<le> n2"
  shows "qr_scale qr n1 \<le> qr_scale qr n2"
proof -
  obtain w h where s: "symbol_size qr 1 None = (w, h)"
    by (cases "symbol_size qr 1 None") auto
  have "0 < w" using symbol_width_pos[of qr] s by simp
  then have "n1 div w \<le> n2 div w" using assms by (rule_tac zdiv_mono1)
  then show ?thesis by (simp add: qr_scale_def s max.coboundedI1)
qed

lemma create_qr_code_Inr:
  "segno_make (symbol_for e) url = Inr qr \<Longrightarrow>
   create_qr_code e url n =
     Inr \<lparr>img_width = (int (modules qr) + 8) * qr_scale qr n,
          img_height = (int (modules qr) + 8) * qr_scale qr n\<rparr>"
  by (simp add: create_qr_code_def symbol_size_def Let_def)

lemma create_qr_code_ok:
  assumes "url \<noteq> []" and "symbol_for e url \<noteq> None"
  shows "\<exists>img. create_qr_code e url n = Inr img"
  using assms by (auto simp: create_qr_code_def segno_make_def symbol_size_def Let_def)


lemma create_full_page_image_ok:
  assumes "url \<noteq> []" and "symbol_for e url \<noteq> None"
  shows "\<exists>img. create_full_page_image e title url fp ps = Inr img"
proof -
  obtain q where "create_qr_code e url 2000 = Inr q"
    using create_qr_code_ok[OF assms] by blast
  then show ?thesis
    by (simp add: create_full_page_image_def Let_def case_prod_beta)
qed

lemma demo_make:
  "segno_make (symbol_for demo_env) (str ''https://example.com'')
     = Inr \<lparr>modules = 29, micro = False\<rparr>"
  by (simp add: segno_make_def demo_env_def demo_symbol_def byte_capacity_h_def str_def)



text \<open>
  Claim C6: for every URL the library encodes and every target size, the image
  is the symbol (with its border of 4 modules) at the scale \<open>qr_scale\<close>, which
  is the floor of the target size divided by the native width of the symbol
  when that floor is at least 1, and 1 otherwise; it is at least 1 always.
\<close>

theorem create_qr_code_scale:
  assumes "segno_make (symbol_for e) url = Inr qr"
  shows "create_qr_code e url qr_size =
           Inr \<lparr>img_width = (int (modules qr) + 8) * qr_scale qr qr_size,
                img_height = (int (modules qr) + 8) * qr_scale qr qr_size\<rparr>
         \<and> qr_scale qr qr_size =
             (if 1 \<le> \<lfloor>real_of_int qr_size / real_of_int (fst (symbol_size qr 1 None))\<rfloor>
              then \<lfloor>real_of_int qr_size / real_of_int (fst (symbol_size qr 1 None))\<rfloor>
              else 1)
         \<and> 1 \<le> qr_scale qr qr_size"
  using assms qr_scale_floor[of qr qr_size] by (simp add: create_qr_code_Inr)

theorem create_qr_code_scale_witness:
  "segno_make (symbol_for demo_env) (str ''https://example.com'')
     = Inr \<lparr>modules = 29, micro = False\<rparr>
   \<and> fst (symbol_size \<lparr>modules = 29, micro = False\<rparr> 1 None) = 37
   \<and> create_qr_code demo_env (str ''https://example.com'') 2000
       = Inr \<lparr>img_width = 1998, img_height = 1998\<rparr>
   \<and> qr_scale \<lparr>modules = 29, micro = False\<rparr> 2000 = 54
   \<and> qr_scale \<lparr>modules = 29, micro = False\<rparr> 30 = 1
   \<and> qr_scale \<lparr>modules = 29, micro = False\<rparr> (- 5) = 1"
  using create_qr_code_scale[OF demo_make, of 2000] demo_make
  by (simp add: qr_scale_def symbol_size_def default_border_def Let_def)

text \<open>
  Claim C7: for a URL the library encodes, the width and the height of the image
  do not decrease when the target size grows.
\<close>

theorem create_qr_code_mono:
  assumes "segno_make (symbol_for e) url = Inr qr" and "n1 \<le> n2"
  shows "\<exists>i1 i2. create_qr_code e url n1 = Inr i1 \<and> create_qr_code e url n2 = Inr i2
           \<and> img_width i1 \<le> img_width i2 \<and> img_height i1 \<le> img_height i2"
proof -
  have "(int (modules qr) + 8) * qr_scale qr n1 \<le> (int (modules qr) + 8) * qr_scale qr n2"
    using qr_scale_mono[OF assms(2), of qr] by (simp add: mult_left_mono)
  then show ?thesis by (simp add: create_qr_code_Inr[OF assms(1)])
qed

theorem create_qr_code_mono_witness:
  "(500 :: int) \<le> 2000
   \<and> create_qr_code demo_env (str ''https://example.com'') 500
       = Inr \<lparr>img_width = 481, img_height = 481\<rparr>
   \<and> create_qr_code demo_env (str ''https://example.com'') 2000
       = Inr \<lparr>img_width = 1998, img_height = 1998\<rparr>"
  using create_qr_code_mono[OF demo_make, of 500 2000] demo_make
  by (simp add: create_qr_code_Inr qr_scale_def symbol_size_def default_border_def Let_def)

section \<open>Fonts: properties\<close>

text \<open>
  Claim C9: \<open>get_font\<close> without a path returns the same font at every size.
  On every fallback path (no path, a path that does not exist, a file that
  does not load at any size) the font is the default font at every size, so the
  title font (size 150) and the URL font (size 80) are the same, and the width
  measured for a line is the same before and after the size is decremented.
\<close>

theorem get_font_fallback:
  assumes "font_path = None
           \<or> (\<exists>p. font_path = Some p
                  \<and> (\<not> path_exists e p \<or> (\<forall>s. \<not> truetype_loads e p s)))"
  shows "get_font e None s1 = get_font e None s2
         \<and> get_font e font_path s1 = Default_font
         \<and> get_font e font_path s1 = get_font e font_path s2
         \<and> get_font e font_path 150 = get_font e font_path 80
         \<and> line_width e (get_font e font_path (s1 - 2)) line
             = line_width e (get_font e font_path s1) line"
  using assms by (auto simp: get_font_def)

theorem get_font_fallback_witness:
  "get_font demo_env None 150 = get_font demo_env None 80
   \<and> get_font demo_env (Some (str ''missing.ttf'')) 80 = Default_font
   \<and> get_font demo_env (Some (str ''missing.ttf'')) 78 = Default_font
   \<and> line_width demo_env (get_font demo_env (Some (str ''missing.ttf'')) 78) (str ''abc'')
       = line_width demo_env (get_font demo_env (Some (str ''missing.ttf'')) 80) (str ''abc'')
   \<and> line_width demo_env (get_font demo_env (Some (str ''font.ttf'')) 78) (str ''abc'') = 234
   \<and> line_width demo_env (get_font demo_env (Some (str ''font.ttf'')) 80) (str ''abc'') = 240"
  using get_font_fallback [of "Some (str ''missing.ttf'')" demo_env 80 78 "str ''abc''"]
  by (simp add: get_font_def demo_env_def line_width_def str_def)

section \<open>The shrink-to-fit loop: properties\<close>

lemma lines_fit_iff:
  "lines_fit e f mw fs lines \<longleftrightarrow> (fs \<le> 40 \<or> (\<forall>line \<in> set lines. line_width e f line \<le> mw))"
  by (induction lines) auto

lemma fit_url_exit:
  "fit_url e fp url mw fs w = (fs', w') \<Longrightarrow>
   lines_fit e (get_font e fp fs') mw fs' w' \<or> fs' \<le> 40"
proof (induction e fp url mw fs w rule: fit_url.induct)
  case (1 e fp url mw fs w)
  show ?case
  proof (cases "lines_fit e (get_font e fp fs) mw fs w \<or> fs \<le> 40")
    case True
    then show ?thesis using "1.prems" by (subst (asm) fit_url.simps) auto
  next
    case False
    then have "fit_url e fp url mw (fs - 2) (wrap (unicode e) 60 url) = (fs', w')"
      using "1.prems" by (subst (asm) fit_url.simps) simp
    then show ?thesis using "1.IH" False by blast
  qed
qed

lemma fit_url_lines:
  "fit_url e fp url mw fs w = (fs', w') \<Longrightarrow> w' = w \<or> w' = wrap (unicode e) 60 url"
proof (induction e fp url mw fs w rule: fit_url.induct)
  case (1 e fp url mw fs w)
  show ?case
  proof (cases "lines_fit e (get_font e fp fs) mw fs w \<or> fs \<le> 40")
    case True
    then show ?thesis using "1.prems" by (subst (asm) fit_url.simps) auto
  next
    case False
    then have "fit_url e fp url mw (fs - 2) (wrap (unicode e) 60 url) = (fs', w')"
      using "1.prems" by (subst (asm) fit_url.simps) simp
    then show ?thesis using "1.IH" False by blast
  qed
qed

lemma fit_url_passes_count:
  "40 \<le> fs \<Longrightarrow> even fs \<Longrightarrow>
   fst (fit_url e fp url mw fs w) = fs - 2 * (int (fit_url_passes e fp url mw fs w) - 1)
   \<and> 1 \<le> fit_url_passes e fp url mw fs w
   \<and> 2 * (int (fit_url_passes e fp url mw fs w) - 1) \<le> fs - 40"
proof (induction e fp url mw fs w rule: fit_url.induct)
  case (1 e fp url mw fs w)
  show ?case
  proof (cases "lines_fit e (get_font e fp fs) mw fs w \<or> fs \<le> 40")
    case True
    then have a: "fit_url e fp url mw fs w = (fs, w)"
      by (subst fit_url.simps) simp
    have b: "fit_url_passes e fp url mw fs w = 1"
      using True by (subst fit_url_passes.simps) simp
    show ?thesis using "1.prems" by (simp add: a b)
  next
    case False
    then have "40 < fs" by simp
    then have "42 \<le> fs" using "1.prems"(2) by presburger
    then have "40 \<le> fs - 2" "even (fs - 2)" using "1.prems" by auto
    then have ih:
      "fst (fit_url e fp url mw (fs - 2) (wrap (unicode e) 60 url))
         = fs - 2 - 2 * (int (fit_url_passes e fp url mw (fs - 2) (wrap (unicode e) 60 url)) - 1)
       \<and> 1 \<le> fit_url_passes e fp url mw (fs - 2) (wrap (unicode e) 60 url)
       \<and> 2 * (int (fit_url_passes e fp url mw (fs - 2) (wrap (unicode e) 60 url)) - 1) \<le> fs - 2 - 40"
      using "1.IH" False by blast
    have a: "fit_url e fp url mw fs w = fit_url e fp url mw (fs - 2) (wrap (unicode e) 60 url)"
      using False by (subst fit_url.simps) simp
    have b: "fit_url_passes e fp url mw fs w
               = Suc (fit_url_passes e fp url mw (fs - 2) (wrap (unicode e) 60 url))"
      using False by (subst fit_url_passes.simps) simp
    show ?thesis using ih by (simp add: a b)
  qed
qed

lemma fit_url_earlier:
  "w = wrap (unicode e) 60 url \<Longrightarrow> k < fit_url_passes e fp url mw fs w - 1 \<Longrightarrow>
   40 < fs - 2 * int k
   \<and> (\<exists>line \<in> set w. mw < line_width e (get_font e fp (fs - 2 * int k)) line)"
proof (induction e fp url mw fs w arbitrary: k rule: fit_url.induct)
  case (1 e fp url mw fs w)
  show ?case
  proof (cases "lines_fit e (get_font e fp fs) mw fs w \<or> fs \<le> 40")
    case True
    then have "fit_url_passes e fp url mw fs w = 1"
      by (subst fit_url_passes.simps) simp
    then show ?thesis using "1.prems" by simp
  next
    case False
    have b: "fit_url_passes e fp url mw fs w
               = Suc (fit_url_passes e fp url mw (fs - 2) (wrap (unicode e) 60 url))"
      using False by (subst fit_url_passes.simps) simp
    show ?thesis
    proof (cases k)
      case 0
      then show ?thesis using False by (auto simp: lines_fit_iff not_le)
    next
      case (Suc j)
      then have "j < fit_url_passes e fp url mw (fs - 2) (wrap (unicode e) 60 url) - 1"
        using "1.prems"(2) b by simp
      then have "40 < fs - 2 - 2 * int j
         \<and> (\<exists>line \<in> set (wrap (unicode e) 60 url).
               mw < line_width e (get_font e fp (fs - 2 - 2 * int j)) line)"
        using "1.IH"[of j] False by blast
      moreover have "fs - 2 - 2 * int j = fs - 2 * int k" using Suc by simp
      ultimately show ?thesis using "1.prems"(1) by simp
    qed
  qed
qed

lemma demo_wrap_url:
  "wrap (unicode demo_env) 60 (str ''https://example.com/register'')
     = [str ''https://example.com/register'']"
  by (simp add: eval_defs)

lemma demo_fit_url:
  "fit_url demo_env (Some (str ''font.ttf'')) (str ''https://example.com/register'') 1950 80
     [str ''https://example.com/register'']
     = (68, [str ''https://example.com/register''])"
  by (simp add: eval_defs fit_url.simps)

lemma demo_fit_url_passes:
  "fit_url_passes demo_env (Some (str ''font.ttf'')) (str ''https://example.com/register'')
     1950 80 [str ''https://example.com/register''] = 7"
  by (simp add: eval_defs fit_url_passes.simps)

text \<open>
  Claim C1: for every URL, font path and environment (hence every font and
  every measure of its lines), the loop started as \<open>create_full_page_image\<close>
  starts it, at size 80 on the URL wrapped at 60 characters and with the page
  width less the two side margins of 300 as the text width, returns a font size
  and the wrapped lines such that every line, measured in the font of that
  size, is at most the text width wide, or the font size is 40.
\<close>

theorem fit_url_fits_or_floor:
  "\<exists>font_size wrapped_url.
     fit_url e font_path url (page_width - 2 * 300) 80 (wrap (unicode e) 60 url)
       = (font_size, wrapped_url)
     \<and> wrapped_url = wrap (unicode e) 60 url
     \<and> ((\<forall>line \<in> set wrapped_url.
            line_width e (get_font e font_path font_size) line \<le> page_width - 2 * 300)
          \<or> font_size = 40)"
proof -
  obtain fs w where r:
    "fit_url e font_path url (page_width - 2 * 300) 80 (wrap (unicode e) 60 url) = (fs, w)"
    by (cases "fit_url e font_path url (page_width - 2 * 300) 80 (wrap (unicode e) 60 url)")
  have w: "w = wrap (unicode e) 60 url"
    using fit_url_lines[OF r] by auto
  have "40 \<le> fs"
    using fit_url_passes_count[of 80 e font_path url "page_width - 2 * 300" "wrap (unicode e) 60 url"] r
    by simp
  moreover have "lines_fit e (get_font e font_path fs) (page_width - 2 * 300) fs w \<or> fs \<le> 40"
    using r by (rule fit_url_exit)
  ultimately have
    "(\<forall>line \<in> set w. line_width e (get_font e font_path fs) line \<le> page_width - 2 * 300)
     \<or> fs = 40"
    by (auto simp: lines_fit_iff)
  then show ?thesis using r w by simp
qed

theorem fit_url_fits_or_floor_witness:
  "fit_url demo_env (Some (str ''font.ttf'')) (str ''https://example.com/register'')
     (2550 - 2 * 300) 80 (wrap (unicode demo_env) 60 (str ''https://example.com/register''))
     = (68, [str ''https://example.com/register''])
   \<and> line_width demo_env (get_font demo_env (Some (str ''font.ttf'')) 68)
        (str ''https://example.com/register'') = 1904
   \<and> line_width demo_env (get_font demo_env (Some (str ''font.ttf'')) 70)
        (str ''https://example.com/register'') = 1960"
  using fit_url_fits_or_floor [of demo_env "Some (str ''font.ttf'')"
      "str ''https://example.com/register''" 2550]
  by (simp add: demo_wrap_url demo_fit_url)
     (simp add: get_font_def demo_env_def line_width_def str_def)

text \<open>
  Claim C8: the loop terminates (\<open>fit_url\<close> is a total function, by the measure
  of its definition) and the number of its passes is bounded. Started at size
  80, it makes at least 1 and at most 21 passes; every pass but the last is at
  a size above 40 at which some line is wider than the text width, and is
  followed by a pass at the size less 2, so that the final size is 80 less 2 for
  every pass but the last; and at the final size its exit test holds: no line
  is too wide above size 40, or the size is at most 40.
\<close>

theorem fit_url_passes_bounded:
  "\<exists>font_size wrapped_url.
     fit_url e font_path url max_text_width 80 (wrap (unicode e) 60 url)
       = (font_size, wrapped_url)
     \<and> 1 \<le> fit_url_passes e font_path url max_text_width 80 (wrap (unicode e) 60 url)
     \<and> fit_url_passes e font_path url max_text_width 80 (wrap (unicode e) 60 url) \<le> 21
     \<and> font_size
         = 80 - 2 * (int (fit_url_passes e font_path url max_text_width 80
                            (wrap (unicode e) 60 url)) - 1)
     \<and> (\<forall>k < fit_url_passes e font_path url max_text_width 80 (wrap (unicode e) 60 url) - 1.
           40 < 80 - 2 * int k
           \<and> (\<exists>line \<in> set (wrap (unicode e) 60 url).
                 max_text_width < line_width e (get_font e font_path (80 - 2 * int k)) line))
     \<and> (lines_fit e (get_font e font_path font_size) max_text_width font_size wrapped_url
          \<or> font_size \<le> 40)"
proof -
  obtain fs w where r:
    "fit_url e font_path url max_text_width 80 (wrap (unicode e) 60 url) = (fs, w)"
    by (cases "fit_url e font_path url max_text_width 80 (wrap (unicode e) 60 url)")
  have p: "fs = 80 - 2 * (int (fit_url_passes e font_path url max_text_width 80
                                 (wrap (unicode e) 60 url)) - 1)"
    "1 \<le> fit_url_passes e font_path url max_text_width 80 (wrap (unicode e) 60 url)"
    "fit_url_passes e font_path url max_text_width 80 (wrap (unicode e) 60 url) \<le> 21"
    using fit_url_passes_count[of 80 e font_path url max_text_width "wrap (unicode e) 60 url"] r
    by auto
  have x: "lines_fit e (get_font e font_path fs) max_text_width fs w \<or> fs \<le> 40"
    using r by (rule fit_url_exit)
  have "\<forall>k < fit_url_passes e font_path url max_text_width 80 (wrap (unicode e) 60 url) - 1.
          40 < 80 - 2 * int k
          \<and> (\<exists>line \<in> set (wrap (unicode e) 60 url).
                max_text_width < line_width e (get_font e font_path (80 - 2 * int k)) line)"
    using fit_url_earlier[of "wrap (unicode e) 60 url" e url _ font_path max_text_width 80]
    by blast
  then show ?thesis using r p x by simp
qed

theorem fit_url_passes_bounded_witness:
  "fit_url_passes demo_env (Some (str ''font.ttf'')) (str ''https://example.com/register'')
     1950 80 (wrap (unicode demo_env) 60 (str ''https://example.com/register'')) = 7
   \<and> fit_url demo_env (Some (str ''font.ttf'')) (str ''https://example.com/register'')
       1950 80 (wrap (unicode demo_env) 60 (str ''https://example.com/register''))
       = (80 - 2 * (7 - 1), [str ''https://example.com/register''])"
  using fit_url_passes_bounded [of demo_env "Some (str ''font.ttf'')"
      "str ''https://example.com/register''" 1950]
  by (simp add: demo_wrap_url demo_fit_url demo_fit_url_passes)

section \<open>The batch: properties\<close>











text \<open>
  Claim C10: for every title none of whose characters is alphanumeric, an
  underscore or a hyphen (each is outside the allowed set, or a space, so that
  what the filter keeps is whitespace only), \<open>clean_filename\<close> returns the empty
  string; and a row with such a title and a URL that is not blank, whose page
  composes, is neither skipped nor an error: the body of the loop prints that it
  processes the row and saves the page under the file name \<open>.png\<close>.
\<close>

theorem clean_filename_empty_saved:
  assumes "\<forall>c \<in> set title. \<not> isalnum (unicode e) c \<and> c \<noteq> 95 \<and> c \<noteq> 45"
      and "strip url \<noteq> []"
      and "create_full_page_image e (strip title) (strip url) font_path (2550, 3300) = Inr img"
  shows "clean_filename (unicode e) title = []
         \<and> process_entry e font_path n i (title # url # others) st =
             Inr (st\<lparr>printed := printed st
                         @ [Processing i n (strip title) (strip url), Saved (str ''.png'')],
                       files := (files st)(str ''.png'' \<mapsto> img)\<rparr>)"
proof -
  have "\<forall>c \<in> set (strip title). \<not> isalnum (unicode e) c \<and> c \<noteq> 95 \<and> c \<noteq> 45"
    using assms(1) set_strip[of title] by blast
  then have "clean_filename (unicode e) (strip title) = []"
    by (rule clean_filename_nil)
  then show ?thesis
    using assms by (simp add: clean_filename_nil process_entry_def Let_def)
qed

lemma demo_page:
  "\<exists>img. create_full_page_image demo_env (str ''?!'') (str ''a.b'') None (2550, 3300) = Inr img"
  by (rule create_full_page_image_ok)
     (simp_all add: demo_env_def demo_symbol_def byte_capacity_h_def str_def)

theorem clean_filename_empty_saved_witness:
  "\<exists>img. create_full_page_image demo_env (str ''?!'') (str ''a.b'') None (2550, 3300) = Inr img
     \<and> clean_filename ascii_db (str '' ?! '') = []
     \<and> process_entry demo_env None 1 1 [str '' ?! '', str ''a.b'']
          \<lparr>printed = [], files = Map.empty\<rparr> =
          Inr \<lparr>printed = [Processing 1 1 (str ''?!'') (str ''a.b''), Saved (str ''.png'')],
               files = [str ''.png'' \<mapsto> img]\<rparr>"
proof -
  obtain img where img:
    "create_full_page_image demo_env (str ''?!'') (str ''a.b'') None (2550, 3300) = Inr img"
    using demo_page by blast
  have t: "strip (str '' ?! '') = str ''?!''" and u: "strip (str ''a.b'') = str ''a.b''"
    by (simp_all add: strip_def lstrip_def rstrip_def isspace_def str_def)
  have h: "\<forall>c \<in> set (str '' ?! ''). \<not> isalnum (unicode demo_env) c \<and> c \<noteq> 95 \<and> c \<noteq> 45"
    by (simp add: str_def isalnum_def)
  have "clean_filename (unicode demo_env) (str '' ?! '') = []
        \<and> process_entry demo_env None 1 1 (str '' ?! '' # str ''a.b'' # [])
             \<lparr>printed = [], files = Map.empty\<rparr> =
            Inr (\<lparr>printed = [], files = Map.empty\<rparr>
                   \<lparr>printed := printed \<lparr>printed = [], files = Map.empty\<rparr>
                        @ [Processing 1 1 (strip (str '' ?! '')) (strip (str ''a.b'')),
                           Saved (str ''.png'')],
                    files := (files \<lparr>printed = [], files = Map.empty :: pystr \<rightharpoonup> page\<rparr>)
                               (str ''.png'' \<mapsto> img)\<rparr>)"
    by (rule clean_filename_empty_saved[OF h]) (simp_all add: t u img, simp add: str_def)
  then show ?thesis using img by (auto simp: t u demo_env_def)
qed

section \<open>Word wrapping: properties\<close>

lemma fill_line_len:
  "fill_line w n cs = (line, rest) \<Longrightarrow> n \<le> w \<Longrightarrow> n + sum_list (map length line) \<le> w"
proof (induction cs arbitrary: n line rest)
  case Nil
  then show ?case by simp
next
  case (Cons c cs)
  show ?case
  proof (cases "n + length c \<le> w")
    case True
    obtain l r where f: "fill_line w (n + length c) cs = (l, r)"
      by (cases "fill_line w (n + length c) cs") auto
    have "n + length c + sum_list (map length l) \<le> w"
      using Cons.IH[OF f True] .
    moreover have "line = c # l" using Cons.prems(1) True f by simp
    ultimately show ?thesis by simp
  next
    case False
    then show ?thesis using Cons.prems by simp
  qed
qed

lemma rfind_hyphen_lt:
  assumes "rfind_hyphen chunk stop = Some h"
  shows "h < stop"
proof -
  obtain xs where "filter (\<lambda>i. chunk ! i = 45) (rev [0..<min stop (length chunk)]) = h # xs"
    using assms by (auto simp: rfind_hyphen_def split: list.splits)
  then have "h \<in> set (filter (\<lambda>i. chunk ! i = 45) (rev [0..<min stop (length chunk)]))"
    by (metis list.set_intros(1))
  then show ?thesis by simp
qed

lemma long_word_end_le: "1 \<le> w \<Longrightarrow> long_word_end w n chunk \<le> w - n"
  by (auto simp: long_word_end_def Let_def split: option.splits dest: rfind_hyphen_lt)

lemma sum_length_butlast: "sum_list (map length (butlast xs)) \<le> sum_list (map length xs)"
  by (induction xs) auto

lemma wrap_pass_line_len:
  assumes "1 \<le> w" and "wrap_pass w b chunks = (out, rest)"
  shows "\<forall>l \<in> set out. length l \<le> w"
proof -
  obtain line r1 where fl:
    "fill_line w 0 (if strip (hd chunks) = [] \<and> b then tl chunks else chunks) = (line, r1)"
    by (cases "fill_line w 0 (if strip (hd chunks) = [] \<and> b then tl chunks else chunks)") auto
  define l2 where "l2 = fst (if r1 \<noteq> [] \<and> w < length (hd r1)
                               then handle_long_word w line r1 else (line, r1))"
  have len: "sum_list (map length line) \<le> w"
    using fill_line_len[OF fl] by simp
  have "sum_list (map length l2) \<le> w"
  proof (cases "r1 \<noteq> [] \<and> w < length (hd r1)")
    case True
    then obtain r rs where r1: "r1 = r # rs" by (cases r1) auto
    have "long_word_end w (sum_list (map length line)) r \<le> w - sum_list (map length line)"
      using assms(1) by (rule long_word_end_le)
    then show ?thesis using True len
      by (simp add: l2_def r1 handle_long_word_def Let_def)
  next
    case False
    then show ?thesis using len by (auto simp: l2_def)
  qed
  then have "sum_list (map length (drop_blank_end l2)) \<le> w"
    using sum_length_butlast[of l2] by (simp add: drop_blank_end_def)
  moreover have "out = (if drop_blank_end l2 \<noteq> [] then [concat (drop_blank_end l2)] else [])"
    using assms(2) wrap_pass_eq[OF fl] by (auto simp: l2_def)
  ultimately show ?thesis by (simp add: length_concat)
qed

lemma wrap_chunks_line_len:
  "1 \<le> w \<Longrightarrow> \<forall>l \<in> set lines. length l \<le> w \<Longrightarrow>
   \<forall>l \<in> set (wrap_chunks w lines chunks). length l \<le> w"
proof (induction w lines chunks rule: wrap_chunks.induct)
  case (1 w lines chunks)
  show ?case
  proof (cases "chunks = []")
    case True
    then show ?thesis using "1.prems" by (subst wrap_chunks.simps) simp
  next
    case False
    obtain out rest where p: "wrap_pass w (lines \<noteq> []) chunks = (out, rest)"
      by (cases "wrap_pass w (lines \<noteq> []) chunks") auto
    have "\<forall>l \<in> set (lines @ out). length l \<le> w"
      using "1.prems" wrap_pass_line_len[OF _ p] by auto
    then have "\<forall>l \<in> set (wrap_chunks w (lines @ out) rest). length l \<le> w"
      using "1.IH"[OF False p[symmetric] "1.prems"(1)] by blast
    then show ?thesis using False p by (subst wrap_chunks.simps) simp
  qed
qed

lemma wrap_line_len: "1 \<le> w \<Longrightarrow> \<forall>l \<in> set (wrap db w text). length l \<le> w"
  using wrap_chunks_line_len[of w "[]"] by (simp add: wrap_def)

lemma strip_nil_iff: "strip s = [] \<longleftrightarrow> (\<forall>c \<in> set s. isspace c)"
proof
  assume "strip s = []"
  then have "\<forall>c \<in> set (rstrip s). isspace c"
    by (simp add: strip_def lstrip_def dropWhile_eq_Nil_conv)
  then have "rstrip (rstrip s) = []" by (simp add: rstrip_nil_iff)
  then show "\<forall>c \<in> set s. isspace c" by (simp add: rstrip_idem rstrip_nil_iff)
next
  assume "\<forall>c \<in> set s. isspace c"
  then have "rstrip s = []" by (simp add: rstrip_nil_iff)
  then show "strip s = []" by (simp add: strip_def lstrip_def)
qed

lemma concat_split_chunks: "concat (split_chunks db prev text) = text"
  by (induction db prev "text" rule: split_chunks.induct) (simp_all add: Let_def)

lemma split_chunks_nonempty: "\<forall>c \<in> set (split_chunks db prev text). c \<noteq> []"
  by (induction db prev "text" rule: split_chunks.induct) (simp_all add: Let_def)

lemma hd_split_chunks:
  "text \<noteq> [] \<Longrightarrow> split_chunks db prev text \<noteq> [] \<and> hd (hd (split_chunks db prev text)) = hd text"
  by (cases "text") (simp_all add: Let_def)

lemma last_concat_nonempty:
  "xs \<noteq> [] \<Longrightarrow> \<forall>x \<in> set xs. x \<noteq> [] \<Longrightarrow> last (concat xs) = last (last xs)"
  by (induction xs) auto

lemma last_split_chunks:
  assumes "text \<noteq> []"
  shows "last (split_chunks db prev text) \<noteq> []
         \<and> last (last (split_chunks db prev text)) = last text"
proof -
  have ne: "split_chunks db prev text \<noteq> []"
    using hd_split_chunks[OF assms] by simp
  then have "last (split_chunks db prev text) \<in> set (split_chunks db prev text)" by simp
  then have "last (split_chunks db prev text) \<noteq> []"
    using split_chunks_nonempty by blast
  moreover have "last (concat (split_chunks db prev text)) = last (last (split_chunks db prev text))"
    using ne split_chunks_nonempty by (rule last_concat_nonempty)
  ultimately show ?thesis by (simp add: concat_split_chunks)
qed

lemma length_expandtabs: "0 < ts \<Longrightarrow> length s \<le> length (expandtabs ts col s)"
proof (induction s arbitrary: col)
  case Nil
  then show ?case by simp
next
  case (Cons c cs)
  show ?case
  proof (cases "c = 9")
    case True
    have a: "0 < ts - col mod ts" using Cons.prems by simp
    have b: "length cs \<le> length (expandtabs ts (col + (ts - col mod ts)) cs)"
      using Cons.IH[OF Cons.prems] .
    have "expandtabs ts col (c # cs)
            = replicate (ts - col mod ts) 32 @ expandtabs ts (col + (ts - col mod ts)) cs"
      using True Cons.prems by simp
    then have "length (expandtabs ts col (c # cs))
            = (ts - col mod ts) + length (expandtabs ts (col + (ts - col mod ts)) cs)"
      by simp
    then show ?thesis using a b by simp
  next
    case False
    then show ?thesis using Cons.IH[OF Cons.prems] by simp
  qed
qed

lemma hd_expandtabs:
  "text \<noteq> [] \<Longrightarrow> hd text \<noteq> 9 \<Longrightarrow>
   expandtabs ts col text \<noteq> [] \<and> hd (expandtabs ts col text) = hd text"
  by (cases "text") simp_all

lemma last_expandtabs:
  "text \<noteq> [] \<Longrightarrow> last text \<noteq> 9 \<Longrightarrow>
   expandtabs ts col text \<noteq> [] \<and> last (expandtabs ts col text) = last text"
proof (induction "text" arbitrary: col)
  case Nil
  then show ?case by simp
next
  case (Cons c cs)
  show ?case
  proof (cases "cs = []")
    case True
    then show ?thesis using Cons.prems by simp
  next
    case False
    then have "last cs \<noteq> 9" using Cons.prems by simp
    then have ih: "\<And>col. expandtabs ts col cs \<noteq> [] \<and> last (expandtabs ts col cs) = last cs"
      using Cons.IH False by blast
    show ?thesis using False ih by auto
  qed
qed

lemma length_munge: "length text \<le> length (munge_whitespace text)"
  by (simp add: munge_whitespace_def length_expandtabs)

lemma hd_munge:
  assumes "text \<noteq> []" and "\<not> isspace (hd text)"
  shows "munge_whitespace text \<noteq> [] \<and> \<not> isspace (hd (munge_whitespace text))"
proof -
  have "hd text \<noteq> 9" using assms(2) by (auto simp: isspace_def)
  then have e: "expandtabs 8 0 text \<noteq> []" "hd (expandtabs 8 0 text) = hd text"
    using hd_expandtabs[OF assms(1)] by auto
  have "\<not> ws6 (hd text)" using assms(2) by (auto simp: isspace_def ws6_def)
  then show ?thesis using e assms(2) by (simp add: munge_whitespace_def hd_map)
qed

lemma last_munge:
  assumes "text \<noteq> []" and "\<not> isspace (last text)"
  shows "munge_whitespace text \<noteq> [] \<and> \<not> isspace (last (munge_whitespace text))"
proof -
  have "last text \<noteq> 9" using assms(2) by (auto simp: isspace_def)
  then have e: "expandtabs 8 0 text \<noteq> []" "last (expandtabs 8 0 text) = last text"
    using last_expandtabs[OF assms(1)] by auto
  have "\<not> ws6 (last text)" using assms(2) by (auto simp: isspace_def ws6_def)
  then show ?thesis using e assms(2) by (simp add: munge_whitespace_def last_map)
qed

lemma rstrip_last: "rstrip s \<noteq> [] \<Longrightarrow> \<not> isspace (last (rstrip s))"
proof -
  assume ne: "rstrip s \<noteq> []"
  then have "dropWhile isspace (rev s) \<noteq> []" by (simp add: rstrip_def)
  then have "\<not> isspace (hd (dropWhile isspace (rev s)))" by (rule hd_dropWhile)
  moreover have "last (rstrip s) = hd (dropWhile isspace (rev s))"
    by (simp add: rstrip_def last_rev)
  ultimately show ?thesis by simp
qed

lemma solid_not_blank: "c \<noteq> [] \<Longrightarrow> \<not> isspace (last c) \<Longrightarrow> strip c \<noteq> []"
  using last_in_set[of c] by (auto simp: strip_nil_iff)

lemma start_not_blank: "c \<noteq> [] \<Longrightarrow> \<not> isspace (hd c) \<Longrightarrow> strip c \<noteq> []"
  using hd_in_set[of c] by (auto simp: strip_nil_iff)

lemma solid_end_chunks1:
  assumes "solid_end chunks"
  shows "solid_end (if strip (hd chunks) = [] \<and> b then tl chunks else chunks)"
proof (cases "strip (hd chunks) = [] \<and> b")
  case True
  obtain c cs where chunks: "chunks = c # cs"
    using assms by (cases chunks) (auto simp: solid_end_def)
  have "cs \<noteq> []"
  proof
    assume "cs = []"
    then have "strip c \<noteq> []"
      using assms solid_not_blank[of c] by (simp add: solid_end_def chunks)
    then show False using True chunks by simp
  qed
  then show ?thesis using assms True by (simp add: solid_end_def chunks)
next
  case False
  then show ?thesis using assms by auto
qed

lemma wrap_pass_solid:
  assumes "solid_end chunks" and "1 \<le> w" and "wrap_pass w b chunks = (out, rest)"
  shows "(rest = [] \<longrightarrow> out \<noteq> []) \<and> (rest \<noteq> [] \<longrightarrow> solid_end rest)"
proof -
  define chunks1 where "chunks1 = (if strip (hd chunks) = [] \<and> b then tl chunks else chunks)"
  have s1: "solid_end chunks1"
    unfolding chunks1_def using assms(1) by (rule solid_end_chunks1)
  obtain line r1 where fl: "fill_line w 0 chunks1 = (line, r1)"
    by (cases "fill_line w 0 chunks1") auto
  have app: "chunks1 = line @ r1" using fl by (rule fill_line_append)
  note eq = wrap_pass_eq[OF fl[unfolded chunks1_def], unfolded assms(3)]
  show ?thesis
  proof (cases r1)
    case Nil
    then have line: "line = chunks1" using app by simp
    have "strip (last line) \<noteq> []"
      using s1 solid_not_blank[of "last chunks1"] by (simp add: line solid_end_def)
    then have "drop_blank_end line = line" by (simp add: drop_blank_end_def)
    moreover have "line \<noteq> []" using s1 by (simp add: line solid_end_def)
    ultimately show ?thesis using eq Nil by simp
  next
    case (Cons r rs)
    have last1: "last chunks1 = last (r # rs)" using app Cons by simp
    show ?thesis
    proof (cases "w < length r")
      case False
      then have "rest = r # rs" using eq Cons by simp
      then show ?thesis using s1 last1 by (simp add: solid_end_def)
    next
      case True
      define e where "e = long_word_end w (sum_list (map length line)) r"
      have rest: "rest = drop e r # rs"
        using eq Cons True by (simp add: handle_long_word_def Let_def e_def)
      have "e \<le> w - sum_list (map length line)"
        unfolding e_def using assms(2) by (rule long_word_end_le)
      then have "e < length r" using True by simp
      then have "drop e r \<noteq> []" "last (drop e r) = last r" by simp_all
      then show ?thesis using s1 last1 by (auto simp: solid_end_def rest)
    qed
  qed
qed

lemma wrap_pass_out: "wrap_pass w b chunks = (out, rest) \<Longrightarrow> length out \<le> 1"
  by (auto simp: wrap_pass_def Let_def case_prod_beta split: if_splits)

lemma wrap_chunks_length_mono: "length lines \<le> length (wrap_chunks w lines chunks)"
proof (induction w lines chunks rule: wrap_chunks.induct)
  case (1 w lines chunks)
  show ?case
  proof (cases "chunks = []")
    case True
    then show ?thesis by (subst wrap_chunks.simps) simp
  next
    case False
    obtain out rest where p: "wrap_pass w (lines \<noteq> []) chunks = (out, rest)"
      by (cases "wrap_pass w (lines \<noteq> []) chunks") auto
    have "length (lines @ out) \<le> length (wrap_chunks w (lines @ out) rest)"
      using "1.IH"[OF False p[symmetric]] .
    then show ?thesis using False p by (subst wrap_chunks.simps) simp
  qed
qed

lemma wrap_chunks_grows:
  "1 \<le> w \<Longrightarrow> solid_end chunks \<Longrightarrow> length lines < length (wrap_chunks w lines chunks)"
proof (induction w lines chunks rule: wrap_chunks.induct)
  case (1 w lines chunks)
  have ne: "chunks \<noteq> []" using "1.prems"(2) by (simp add: solid_end_def)
  obtain out rest where p: "wrap_pass w (lines \<noteq> []) chunks = (out, rest)"
    by (cases "wrap_pass w (lines \<noteq> []) chunks") auto
  have unfold: "wrap_chunks w lines chunks = wrap_chunks w (lines @ out) rest"
    using ne p by (subst wrap_chunks.simps) simp
  have s: "(rest = [] \<longrightarrow> out \<noteq> []) \<and> (rest \<noteq> [] \<longrightarrow> solid_end rest)"
    using "1.prems"(2) "1.prems"(1) p by (rule wrap_pass_solid)
  show ?case
  proof (cases "rest = []")
    case True
    then have "out \<noteq> []" using s by simp
    then have "0 < length out" by simp
    then have "length lines < length (lines @ out)" by simp
    also have "\<dots> \<le> length (wrap_chunks w (lines @ out) rest)"
      by (rule wrap_chunks_length_mono)
    finally show ?thesis by (simp add: unfold)
  next
    case False
    then have "solid_end rest" using s by simp
    then have "length (lines @ out) < length (wrap_chunks w (lines @ out) rest)"
      using "1.IH"[OF ne p[symmetric] "1.prems"(1)] by blast
    then show ?thesis by (simp add: unfold)
  qed
qed

lemma wrap_pass_first:
  assumes "chunks \<noteq> []" and "hd chunks \<noteq> []" and "\<not> isspace (hd (hd chunks))"
      and "1 \<le> w" and "w < sum_list (map length chunks)"
      and "wrap_pass w False chunks = (out, rest)"
  shows "out \<noteq> [] \<and> rest \<noteq> []"
proof -
  obtain line r1 where fl: "fill_line w 0 chunks = (line, r1)"
    by (cases "fill_line w 0 chunks") auto
  have app: "chunks = line @ r1" using fl by (rule fill_line_append)
  have eq: "(out, rest) =
           (if drop_blank_end (fst (if r1 \<noteq> [] \<and> w < length (hd r1)
                                    then handle_long_word w line r1 else (line, r1))) \<noteq> []
            then [concat (drop_blank_end (fst (if r1 \<noteq> [] \<and> w < length (hd r1)
                                               then handle_long_word w line r1 else (line, r1))))]
            else [],
            snd (if r1 \<noteq> [] \<and> w < length (hd r1)
                 then handle_long_word w line r1 else (line, r1)))"
    using wrap_pass_eq[of w chunks False line r1] fl assms(6) by simp
  have "sum_list (map length line) \<le> w" using fill_line_len[OF fl] by simp
  then have "r1 \<noteq> []" using assms(5) app by auto
  then obtain r rs where r1: "r1 = r # rs" by (cases r1) auto
  have nb: "strip (hd chunks) \<noteq> []"
    using assms(2,3) by (rule start_not_blank)
  define l2 where "l2 = fst (if r1 \<noteq> [] \<and> w < length (hd r1)
                               then handle_long_word w line r1 else (line, r1))"
  have "drop_blank_end l2 \<noteq> []"
  proof (cases line)
    case Nil
    then have r: "r = hd chunks" using app r1 by simp
    have long: "w < length r"
      using fl fill_line_none[of w 0 r rs r1] app r1 Nil by simp
    have e: "0 < long_word_end w 0 r" using long by (rule long_word_end_pos)
    have l2: "l2 = [take (long_word_end w 0 r) r]"
      using long by (simp add: l2_def r1 Nil handle_long_word_def Let_def)
    have "take (long_word_end w 0 r) r \<noteq> []" using e long by auto
    moreover have "hd (take (long_word_end w 0 r) r) = hd r" using e by simp
    ultimately have "strip (take (long_word_end w 0 r) r) \<noteq> []"
      using assms(3) r start_not_blank by metis
    then show ?thesis by (simp add: l2 drop_blank_end_def)
  next
    case (Cons l ls)
    then have l: "l = hd chunks" using app by simp
    show ?thesis
    proof (cases ls)
      case Nil
      then show ?thesis using nb l Cons
        by (auto simp: l2_def r1 handle_long_word_def Let_def drop_blank_end_def)
    next
      case (Cons a as)
      then show ?thesis using \<open>line = l # ls\<close>
        by (auto simp: l2_def r1 handle_long_word_def Let_def drop_blank_end_def)
    qed
  qed
  moreover have "rest \<noteq> []"
    using eq r1 by (auto simp: handle_long_word_def Let_def)
  ultimately show ?thesis using eq by (simp add: l2_def)
qed

lemma wrap_two_lines:
  assumes "1 \<le> w" and "w < length s" and "strip s = s"
  shows "2 \<le> length (wrap db w s)"
proof -
  have ne: "s \<noteq> []" using assms(2) by auto
  have "lstrip (rstrip s) \<noteq> []" using assms(3) ne by (simp add: strip_def)
  then have hdns: "\<not> isspace (hd (strip s))"
    unfolding strip_def lstrip_def by (rule hd_dropWhile)
  have "rstrip s \<noteq> []" using assms(3) ne by (auto simp: strip_def lstrip_def)
  then have "\<not> isspace (last (rstrip s))" by (rule rstrip_last)
  moreover have "last (strip s) = last (rstrip s)"
  proof -
    have "rstrip s = takeWhile isspace (rstrip s) @ strip s"
      by (simp add: strip_def lstrip_def)
    then show ?thesis using assms(3) ne by (metis last_appendR)
  qed
  ultimately have lastns: "\<not> isspace (last s)" using assms(3) by simp
  have hdns': "\<not> isspace (hd s)" using hdns assms(3) by simp
  define m where "m = munge_whitespace s"
  define chunks where "chunks = split_chunks db [] m"
  have m: "m \<noteq> []" "\<not> isspace (hd m)" "\<not> isspace (last m)" "w < length m"
    using hd_munge[OF ne hdns'] last_munge[OF ne lastns] length_munge[of s] assms(2)
    by (simp_all add: m_def)
  have c1: "chunks \<noteq> []" "hd (hd chunks) = hd m"
    using hd_split_chunks[OF m(1), of db "[]"] by (simp_all add: chunks_def)
  have c2: "hd chunks \<noteq> []"
    using split_chunks_nonempty[of db "[]" m] c1(1) by (simp add: chunks_def)
  have c3: "last chunks \<noteq> []" "last (last chunks) = last m"
    using last_split_chunks[OF m(1), of db "[]"] by (simp_all add: chunks_def)
  have c4: "sum_list (map length chunks) = length m"
    using concat_split_chunks[of db "[]" m] by (simp add: chunks_def length_concat[symmetric])
  obtain out rest where p: "wrap_pass w False chunks = (out, rest)"
    by (cases "wrap_pass w False chunks") auto
  have first: "out \<noteq> [] \<and> rest \<noteq> []"
    using c1(1) c2 _ assms(1) _ p
  proof (rule wrap_pass_first)
    show "\<not> isspace (hd (hd chunks))" using m(2) c1(2) by simp
    show "w < sum_list (map length chunks)" using m(4) c4 by simp
  qed
  have "solid_end chunks" using c1(1) c3 m(3) by (simp add: solid_end_def)
  then have "solid_end rest"
    using wrap_pass_solid[OF _ assms(1) p] first by simp
  then have "length ([] @ out) < length (wrap_chunks w ([] @ out) rest)"
    using assms(1) by (rule wrap_chunks_grows[rotated])
  moreover have "wrap_chunks w [] chunks = wrap_chunks w ([] @ out) rest"
    using c1(1) p by (subst wrap_chunks.simps) simp
  moreover have "1 \<le> length out" using first by (cases out) auto
  ultimately show ?thesis by (simp add: wrap_def m_def chunks_def)
qed

lemma words6_spaces: "\<forall>x \<in> set xs. ws6 x \<Longrightarrow> words6 (xs @ ys) = words6 ys"
  by (induction xs) auto

lemma words6_dropWhile: "words6 (dropWhile ws6 xs) = words6 xs"
  by (induction xs) auto

lemma words6_word:
  assumes "u \<noteq> []" and "\<forall>x \<in> set u. \<not> ws6 x" and "v = [] \<or> ws6 (hd v)"
  shows "words6 (u @ v) = u # words6 v"
proof -
  obtain c cs where u: "u = c # cs" using assms(1) by (cases u) auto
  have t: "takeWhile (\<lambda>x. \<not> ws6 x) (cs @ v) = cs"
    using assms(2,3) by (cases v) (auto simp: u takeWhile_append)
  have d: "dropWhile (\<lambda>x. \<not> ws6 x) (cs @ v) = v"
    using assms(2,3) by (cases v) (auto simp: u dropWhile_append)
  show ?thesis using assms(2) by (simp add: u t d)
qed

lemma hyphen_break_hyphen: "hyphen_break db prev (c # cs) \<Longrightarrow> c = 45"
  by (auto simp: hyphen_break_def split: list.splits)

lemma emdash_ahead_hyphen: "emdash_ahead db (c # cs) \<Longrightarrow> c = 45"
  by (auto simp: emdash_ahead_def split: if_splits)

lemma word_more_plain:
  "45 \<notin> set cs \<Longrightarrow> word_more db prev cs = length (takeWhile (\<lambda>x. \<not> ws6 x) cs)"
proof (induction cs arbitrary: prev)
  case Nil
  then show ?case by simp
next
  case (Cons c cs)
  have "\<not> hyphen_break db prev (c # cs)" "\<not> emdash_ahead db (c # cs)"
    using Cons.prems hyphen_break_hyphen emdash_ahead_hyphen by fastforce+
  then show ?case using Cons by simp
qed

lemma split_chunks_plain:
  assumes "45 \<notin> set (c # cs)"
  shows "split_chunks db prev (c # cs) =
           (if ws6 c then (c # takeWhile ws6 cs) # split_chunks db (rev (c # takeWhile ws6 cs) @ prev)
                             (dropWhile ws6 cs)
            else (c # takeWhile (\<lambda>x. \<not> ws6 x) cs)
                   # split_chunks db (rev (c # takeWhile (\<lambda>x. \<not> ws6 x) cs) @ prev)
                       (dropWhile (\<lambda>x. \<not> ws6 x) cs))"
proof -
  have e: "\<not> emdash_ahead db (c # cs)"
    using assms emdash_ahead_hyphen by fastforce
  have m: "word_more db (c # prev) cs = length (takeWhile (\<lambda>x. \<not> ws6 x) cs)"
    using assms by (simp add: word_more_plain)
  show ?thesis
    by (simp add: e m Let_def takeWhile_eq_take[symmetric] dropWhile_eq_drop[symmetric])
qed

lemma split_chunks_words:
  "45 \<notin> set s \<Longrightarrow> filter wordy (split_chunks db prev s) = words6 s"
proof (induction "length s" arbitrary: s prev rule: less_induct)
  case less
  show ?case
  proof (cases s)
    case Nil
    then show ?thesis by simp
  next
    case (Cons c cs)
    have no: "45 \<notin> set (c # cs)" using less.prems Cons by simp
    have h: "45 \<notin> set (dropWhile ws6 cs)" "45 \<notin> set (dropWhile (\<lambda>x. \<not> ws6 x) cs)"
      using no by (auto dest: set_dropWhileD)
    have l: "length (dropWhile ws6 cs) < length s"
      "length (dropWhile (\<lambda>x. \<not> ws6 x) cs) < length s"
      by (simp_all add: Cons length_dropWhile_le less_Suc_eq_le)
    show ?thesis
    proof (cases "ws6 c")
      case True
      have "filter wordy (split_chunks db (rev (c # takeWhile ws6 cs) @ prev) (dropWhile ws6 cs))
              = words6 (dropWhile ws6 cs)"
        using less.hyps[OF l(1) h(1)] .
      then show ?thesis
        using True
        by (simp add: Cons split_chunks_plain[OF no] wordy_def words6_dropWhile
            del: split_chunks.simps)
    next
      case False
      have "filter wordy (split_chunks db (rev (c # takeWhile (\<lambda>x. \<not> ws6 x) cs) @ prev)
                            (dropWhile (\<lambda>x. \<not> ws6 x) cs))
              = words6 (dropWhile (\<lambda>x. \<not> ws6 x) cs)"
        using less.hyps[OF l(2) h(2)] .
      then show ?thesis
        using False
        by (simp add: Cons split_chunks_plain[OF no] wordy_def del: split_chunks.simps)
    qed
  qed
qed

lemma split_chunks_good:
  "45 \<notin> set s \<Longrightarrow> \<forall>u \<in> set (words6 s). length u \<le> w \<Longrightarrow> good w (split_chunks db prev s)"
proof (induction "length s" arbitrary: s prev rule: less_induct)
  case less
  show ?case
  proof (cases s)
    case Nil
    then show ?thesis by simp
  next
    case (Cons c cs)
    have no: "45 \<notin> set (c # cs)" using less.prems Cons by simp
    have h: "45 \<notin> set (dropWhile ws6 cs)" "45 \<notin> set (dropWhile (\<lambda>x. \<not> ws6 x) cs)"
      using no by (auto dest: set_dropWhileD)
    have l: "length (dropWhile ws6 cs) < length s"
      "length (dropWhile (\<lambda>x. \<not> ws6 x) cs) < length s"
      by (simp_all add: Cons length_dropWhile_le less_Suc_eq_le)
    show ?thesis
    proof (cases "ws6 c")
      case True
      have "\<forall>u \<in> set (words6 (dropWhile ws6 cs)). length u \<le> w"
        using less.prems(2) True by (simp add: Cons words6_dropWhile)
      then have "good w (split_chunks db (rev (c # takeWhile ws6 cs) @ prev) (dropWhile ws6 cs))"
        using less.hyps[OF l(1) h(1)] by blast
      moreover have "\<forall>x \<in> set (takeWhile ws6 cs). ws6 x"
        by (auto dest: set_takeWhileD)
      ultimately show ?thesis
        using True by (simp add: Cons split_chunks_plain[OF no] del: split_chunks.simps)
    next
      case False
      define rest where "rest = dropWhile (\<lambda>x. \<not> ws6 x) cs"
      have "\<forall>u \<in> set (words6 rest). length u \<le> w"
        using less.prems(2) False by (simp add: Cons rest_def)
      then have g: "good w (split_chunks db (rev (c # takeWhile (\<lambda>x. \<not> ws6 x) cs) @ prev) rest)"
        using less.hyps[OF l(2) h(2)] unfolding rest_def by blast
      have len: "length (c # takeWhile (\<lambda>x. \<not> ws6 x) cs) \<le> w"
        using less.prems(2) False by (simp add: Cons)
      have nw: "\<forall>x \<in> set (takeWhile (\<lambda>x. \<not> ws6 x) cs). \<not> ws6 x"
        by (auto dest: set_takeWhileD)
      have nxt: "split_chunks db (rev (c # takeWhile (\<lambda>x. \<not> ws6 x) cs) @ prev) rest = []
                 \<or> ws6 (hd (hd (split_chunks db (rev (c # takeWhile (\<lambda>x. \<not> ws6 x) cs) @ prev) rest)))"
      proof (cases "rest = []")
        case True
        then show ?thesis by simp
      next
        case False
        then have "\<not> \<not> ws6 (hd rest)" unfolding rest_def by (rule hd_dropWhile)
        then show ?thesis using hd_split_chunks[OF False] by simp
      qed
      show ?thesis
        using False g len nw nxt
        by (simp add: Cons split_chunks_plain[OF no] rest_def del: split_chunks.simps)
    qed
  qed
qed

lemma set_expandtabs: "set (expandtabs ts col s) \<subseteq> insert 32 (set s)"
  by (induction s arbitrary: col) auto

lemma set_munge: "set (munge_whitespace s) \<subseteq> insert 32 (set s)"
  using set_expandtabs[of 8 0 s] by (auto simp: munge_whitespace_def)

lemma words6_map:
  assumes "\<And>c. ws6 (f c) = ws6 c" and "\<And>c. \<not> ws6 c \<Longrightarrow> f c = c"
  shows "words6 (map f s) = words6 s"
proof (induction s rule: words6.induct)
  case 1
  then show ?case by simp
next
  case (2 c cs)
  show ?case
  proof (cases "ws6 c")
    case True
    then show ?thesis using 2 assms(1) by simp
  next
    case False
    have po: "(\<lambda>x. \<not> ws6 x) \<circ> f = (\<lambda>x. \<not> ws6 x)" using assms(1) by auto
    have t: "takeWhile (\<lambda>x. \<not> ws6 x) (map f cs) = takeWhile (\<lambda>x. \<not> ws6 x) cs"
    proof -
      have "map f (takeWhile (\<lambda>x. \<not> ws6 x) cs) = takeWhile (\<lambda>x. \<not> ws6 x) cs"
        using assms(2) by (intro map_idI) (auto dest: set_takeWhileD)
      then show ?thesis by (simp add: takeWhile_map po)
    qed
    have d: "dropWhile (\<lambda>x. \<not> ws6 x) (map f cs) = map f (dropWhile (\<lambda>x. \<not> ws6 x) cs)"
      by (simp add: dropWhile_map po)
    show ?thesis using False "2.IH"(2)[OF False] assms by (simp add: t d)
  qed
qed

lemma expandtabs_word:
  "\<forall>x \<in> set u. \<not> ws6 x \<Longrightarrow> expandtabs ts col (u @ v) = u @ expandtabs ts (col + length u) v"
  by (induction u arbitrary: col) (auto simp: ws6_def)

lemma expandtabs_starts_ws6:
  "0 < ts \<Longrightarrow> v \<noteq> [] \<Longrightarrow> ws6 (hd v) \<Longrightarrow>
   expandtabs ts col v \<noteq> [] \<and> ws6 (hd (expandtabs ts col v))"
proof (cases v)
  case Nil
  assume "v \<noteq> []"
  then show ?thesis using Nil by simp
next
  case (Cons c cs)
  assume ts: "0 < ts" and w: "ws6 (hd v)"
  have "0 < ts - col mod ts" using ts by simp
  then obtain k where k: "ts - col mod ts = Suc k" by (cases "ts - col mod ts") auto
  show ?thesis using w ts by (auto simp: Cons k ws6_def)
qed

lemma words6_expandtabs: "0 < ts \<Longrightarrow> words6 (expandtabs ts col s) = words6 s"
proof (induction s arbitrary: col rule: words6.induct)
  case 1
  then show ?case by simp
next
  case (2 c cs)
  show ?case
  proof (cases "ws6 c")
    case True
    have ih: "\<And>col. words6 (expandtabs ts col cs) = words6 cs"
      using "2.IH"(1)[OF True "2.prems"] .
    show ?thesis
    proof (cases "c = 9")
      case t: True
      have "words6 (replicate (ts - col mod ts) 32 @ expandtabs ts (col + (ts - col mod ts)) cs)
              = words6 (expandtabs ts (col + (ts - col mod ts)) cs)"
        by (rule words6_spaces) (simp add: ws6_def)
      then show ?thesis using True t "2.prems" ih by simp
    next
      case False
      then show ?thesis using True ih by simp
    qed
  next
    case False
    define u where "u = c # takeWhile (\<lambda>x. \<not> ws6 x) cs"
    define v where "v = dropWhile (\<lambda>x. \<not> ws6 x) cs"
    have s: "c # cs = u @ v" by (simp add: u_def v_def)
    have nw: "\<forall>x \<in> set u. \<not> ws6 x"
      using False by (auto simp: u_def dest: set_takeWhileD)
    have v: "v = [] \<or> ws6 (hd v)"
      using hd_dropWhile[of "\<lambda>x. \<not> ws6 x" cs] by (auto simp: v_def)
    have ih: "\<And>col. words6 (expandtabs ts col v) = words6 v"
      using "2.IH"(2)[OF False "2.prems"] by (simp add: v_def)
    have e: "expandtabs ts col (c # cs) = u @ expandtabs ts (col + length u) v"
      unfolding s using nw by (rule expandtabs_word)
    have "expandtabs ts (col + length u) v = [] \<or> ws6 (hd (expandtabs ts (col + length u) v))"
    proof (cases "v = []")
      case True
      then show ?thesis by simp
    next
      case False
      then have "ws6 (hd v)" using v by simp
      then show ?thesis
        using expandtabs_starts_ws6[OF "2.prems" False, of "col + length u"] by simp
    qed
    then have "words6 (u @ expandtabs ts (col + length u) v)
                 = u # words6 (expandtabs ts (col + length u) v)"
      using nw by (intro words6_word) (simp_all add: u_def)
    moreover have "words6 (u @ v) = u # words6 v"
      using nw v by (intro words6_word) (simp_all add: u_def)
    ultimately show ?thesis unfolding e using ih s by simp
  qed
qed

lemma words6_munge: "words6 (munge_whitespace s) = words6 s"
proof -
  have "words6 (map (\<lambda>c. if ws6 c then 32 else c) (expandtabs 8 0 s))
          = words6 (expandtabs 8 0 s)"
    by (rule words6_map) (auto simp: ws6_def)
  then show ?thesis by (simp add: munge_whitespace_def words6_expandtabs)
qed

lemma ws6_isspace: "ws6 x \<Longrightarrow> isspace x"
  by (auto simp: ws6_def isspace_def)

lemma good_append: "good w (xs @ ys) \<Longrightarrow> good w xs \<and> good w ys"
proof (induction xs)
  case Nil
  then show ?case by simp
next
  case (Cons x xs)
  then show ?case by (cases xs) auto
qed

lemma good_kind:
  "good w cs \<Longrightarrow> c \<in> set cs \<Longrightarrow>
   c \<noteq> [] \<and> ((\<forall>x \<in> set c. ws6 x) \<or> ((\<forall>x \<in> set c. \<not> ws6 x) \<and> length c \<le> w))"
  by (induction cs) auto

lemma good_blank:
  assumes "good w cs" and "plain cs" and "c \<in> set cs"
  shows "strip c = [] \<longleftrightarrow> \<not> wordy c"
proof -
  have k: "c \<noteq> []" "(\<forall>x \<in> set c. ws6 x) \<or> (\<forall>x \<in> set c. \<not> ws6 x)"
    using good_kind[OF assms(1,3)] by auto
  have h: "hd c \<in> set c" using k(1) by simp
  show ?thesis
  proof (cases "ws6 (hd c)")
    case True
    then have "\<forall>x \<in> set c. ws6 x" using k(2) h by auto
    then have "strip c = []" by (auto simp: strip_nil_iff ws6_isspace)
    then show ?thesis using True by (simp add: wordy_def)
  next
    case False
    then have "\<not> isspace (hd c)" using assms(2,3) h by (auto simp: plain_def)
    then have "strip c \<noteq> []" using k(1) by (rule start_not_blank[rotated])
    then show ?thesis using False k(1) by (simp add: wordy_def)
  qed
qed

lemma good_long:
  "good w cs \<Longrightarrow> c \<in> set cs \<Longrightarrow> w < length c \<Longrightarrow> \<forall>x \<in> set c. ws6 x"
  using good_kind[of w cs c] by auto

lemma words6_concat_good: "good w cs \<Longrightarrow> words6 (concat cs) = filter wordy cs"
proof (induction cs)
  case Nil
  then show ?case by simp
next
  case (Cons c cs)
  have ih: "words6 (concat cs) = filter wordy cs" using Cons by simp
  have ne: "c \<noteq> []" using Cons.prems by simp
  then have h: "hd c \<in> set c" by simp
  show ?case
  proof (cases "\<forall>x \<in> set c. ws6 x")
    case True
    then have "words6 (c @ concat cs) = words6 (concat cs)" by (rule words6_spaces)
    moreover have "\<not> wordy c" using True h by (simp add: wordy_def)
    ultimately show ?thesis using ih by simp
  next
    case False
    then have w: "\<forall>x \<in> set c. \<not> ws6 x" "cs = [] \<or> ws6 (hd (hd cs))"
      using Cons.prems by auto
    have "concat cs = [] \<or> ws6 (hd (concat cs))"
    proof (cases cs)
      case Nil
      then show ?thesis by simp
    next
      case (Cons d ds)
      then have "d \<noteq> []" using \<open>good w (c # cs)\<close> by simp
      then show ?thesis using w(2) Cons by simp
    qed
    then have "words6 (c @ concat cs) = c # words6 (concat cs)"
      using ne w(1) by (intro words6_word) simp_all
    moreover have "wordy c" using w(1) h ne by (simp add: wordy_def)
    ultimately show ?thesis using ih by simp
  qed
qed

lemma plain_append: "plain (xs @ ys) \<longleftrightarrow> plain xs \<and> plain ys"
  by (auto simp: plain_def)

lemma wrap_pass_words:
  assumes w: "1 \<le> w" and g: "good w chunks" and pl: "plain chunks" and ne: "chunks \<noteq> []"
      and p: "wrap_pass w b chunks = (out, rest)"
  shows "good w rest \<and> plain rest
         \<and> concat (map words6 out) @ filter wordy rest = filter wordy chunks"
proof -
  define chunks1 where "chunks1 = (if strip (hd chunks) = [] \<and> b then tl chunks else chunks)"
  obtain c cs where chunks: "chunks = c # cs" using ne by (cases chunks) auto
  have c1: "good w chunks1" "plain chunks1" "filter wordy chunks1 = filter wordy chunks"
  proof -
    have "strip c = [] \<Longrightarrow> \<not> wordy c"
      using good_blank[OF g pl, of c] by (simp add: chunks)
    then show "good w chunks1" "plain chunks1" "filter wordy chunks1 = filter wordy chunks"
      using g pl by (auto simp: chunks1_def chunks plain_def)
  qed
  obtain line r1 where fl: "fill_line w 0 chunks1 = (line, r1)"
    by (cases "fill_line w 0 chunks1") auto
  have app: "chunks1 = line @ r1" using fl by (rule fill_line_append)
  have gl: "good w line" "good w r1" using c1(1) good_append unfolding app by blast+
  have pll: "plain line" "plain r1" using c1(2) unfolding app by (simp_all add: plain_append)
  note eq = wrap_pass_eq[OF fl[unfolded chunks1_def], unfolded p]
  have total: "filter wordy line @ filter wordy r1 = filter wordy chunks"
    using c1(3) by (simp add: app)
  show ?thesis
  proof (cases "r1 \<noteq> [] \<and> w < length (hd r1)")
    case True
    then obtain r rs where r1: "r1 = r # rs" by (cases r1) auto
    have long: "w < length r" using True r1 by simp
    have sp: "\<forall>x \<in> set r. ws6 x"
      using good_long[OF gl(2), of r] long by (simp add: r1)
    define e where "e = long_word_end w (sum_list (map length line)) r"
    have "e \<le> w - sum_list (map length line)"
      unfolding e_def using w by (rule long_word_end_le)
    then have e: "e < length r" using long by simp
    have rest: "rest = drop e r # rs"
      using eq True by (simp add: r1 handle_long_word_def Let_def e_def)
    have "\<forall>x \<in> set (take e r). ws6 x" using sp by (auto dest: in_set_takeD)
    then have "strip (take e r) = []" by (auto simp: strip_nil_iff ws6_isspace)
    then have l3: "drop_blank_end (line @ [take e r]) = line"
      by (simp add: drop_blank_end_def)
    have out: "out = (if line \<noteq> [] then [concat line] else [])"
      using eq True by (simp add: r1 handle_long_word_def Let_def e_def[symmetric] l3)
    have wo: "concat (map words6 out) = filter wordy line"
      using words6_concat_good[OF gl(1)] by (simp add: out)
    have dsp: "drop e r \<noteq> []" "\<forall>x \<in> set (drop e r). ws6 x"
      using e sp by (auto dest: in_set_dropD)
    then have "hd (drop e r) \<in> set (drop e r)" by simp
    then have nwd: "\<not> wordy (drop e r)" using dsp(2) by (auto simp: wordy_def)
    have "hd r \<in> set r" using long by (cases r) auto
    then have nwr: "\<not> wordy r" using sp by (auto simp: wordy_def)
    have "good w (drop e r # rs)" using gl(2) dsp by (simp add: r1)
    moreover have "plain (drop e r # rs)"
      using pll(2) by (auto simp: plain_def r1 dest: in_set_dropD)
    moreover have "concat (map words6 out) @ filter wordy (drop e r # rs) = filter wordy chunks"
      using total wo nwd nwr by (simp add: r1)
    ultimately show ?thesis by (simp add: rest)
  next
    case False
    have rest: "rest = r1" using eq False by auto
    have out: "out = (if drop_blank_end line \<noteq> [] then [concat (drop_blank_end line)] else [])"
      using eq False by auto
    have l3: "good w (drop_blank_end line)
              \<and> filter wordy (drop_blank_end line) = filter wordy line"
    proof (cases "line \<noteq> [] \<and> strip (last line) = []")
      case True
      then have sn: "line = butlast line @ [last line]" by simp
      have "last line \<in> set chunks1" using True app by auto
      then have "\<not> wordy (last line)"
        using good_blank[OF c1(1,2)] True by blast
      then have "filter wordy line = filter wordy (butlast line)"
        using sn by (metis append_Nil2 filter.simps filter_append)
      moreover have "good w (butlast line)"
        using gl(1) good_append[of w "butlast line" "[last line]"] sn by simp
      ultimately show ?thesis using True by (simp add: drop_blank_end_def)
    next
      case False
      then show ?thesis using gl(1) by (auto simp: drop_blank_end_def)
    qed
    have wo: "concat (map words6 out) = filter wordy line"
    proof (cases "drop_blank_end line = []")
      case True
      then show ?thesis using l3 by (simp add: out)
    next
      case False
      then show ?thesis
        using words6_concat_good[of w "drop_blank_end line"] l3 by (simp add: out)
    qed
    show ?thesis using gl(2) pll(2) total wo by (simp add: rest)
  qed
qed

lemma wrap_chunks_words:
  "1 \<le> w \<Longrightarrow> good w chunks \<Longrightarrow> plain chunks \<Longrightarrow>
   concat (map words6 (wrap_chunks w lines chunks))
     = concat (map words6 lines) @ filter wordy chunks"
proof (induction w lines chunks rule: wrap_chunks.induct)
  case (1 w lines chunks)
  show ?case
  proof (cases "chunks = []")
    case True
    then show ?thesis by (subst wrap_chunks.simps) simp
  next
    case False
    obtain out rest where p: "wrap_pass w (lines \<noteq> []) chunks = (out, rest)"
      by (cases "wrap_pass w (lines \<noteq> []) chunks") auto
    have s: "good w rest \<and> plain rest
             \<and> concat (map words6 out) @ filter wordy rest = filter wordy chunks"
      using "1.prems" False p by (rule wrap_pass_words)
    then have "concat (map words6 (wrap_chunks w (lines @ out) rest))
                 = concat (map words6 (lines @ out)) @ filter wordy rest"
      using "1.IH"[OF False p[symmetric] "1.prems"(1)] by blast
    then show ?thesis using False p s by (subst wrap_chunks.simps) simp
  qed
qed

lemma wrap_words:
  assumes "1 \<le> w" and "45 \<notin> set s" and "\<forall>u \<in> set (words6 s). length u \<le> w"
      and "\<forall>c \<in> set s. isspace c \<longrightarrow> ws6 c"
  shows "concat (map words6 (wrap db w s)) = words6 s"
proof -
  define m where "m = munge_whitespace s"
  have sm: "set m \<subseteq> insert 32 (set s)" unfolding m_def by (rule set_munge)
  have no: "45 \<notin> set m" using sm assms(2) by auto
  have wm: "words6 m = words6 s" unfolding m_def by (rule words6_munge)
  have g: "good w (split_chunks db [] m)"
    using no assms(3) by (intro split_chunks_good) (simp_all add: wm)
  have "\<forall>x \<in> set m. isspace x \<longrightarrow> ws6 x"
    using sm assms(4) by (auto simp: ws6_def)
  moreover have "set (concat (split_chunks db [] m)) = set m"
    by (simp add: concat_split_chunks)
  ultimately have pl: "plain (split_chunks db [] m)"
    unfolding plain_def by (metis UN_I set_concat)
  have "concat (map words6 (wrap_chunks w [] (split_chunks db [] m)))
          = concat (map words6 []) @ filter wordy (split_chunks db [] m)"
    using assms(1) g pl by (rule wrap_chunks_words)
  then show ?thesis
    using split_chunks_words[OF no, of db "[]"] by (simp add: wrap_def m_def[symmetric] wm)
qed

lemma demo_wrap_title:
  "wrap ascii_db 30 (str ''This is a very long title that should wrap to multiple lines'')
     = [str ''This is a very long title that'', str ''should wrap to multiple lines'']"
  by (simp add: eval_defs)

lemma demo_words_title:
  "words6 (str ''This is a very long title that should wrap to multiple lines'')
     = [str ''This'', str ''is'', str ''a'', str ''very'', str ''long'', str ''title'',
        str ''that'', str ''should'', str ''wrap'', str ''to'', str ''multiple'', str ''lines'']"
  by (simp add: str_def ws6_def)

text \<open>
  Claim C2, as the code has it. For every title: every line of the wrapped title
  has at most 30 characters; a title of more than 30 characters without
  whitespace at either end (both callers strip it) is split into at least 2
  lines; and when the title has no hyphen (45), no word of more than 30
  characters and no whitespace character other than those of \<open>textwrap\<close>, the
  words of the lines, in order, are the words of the title, so that no word is
  split and the lines break at whitespace only.
\<close>

theorem wrap_title_lines:
  "(\<forall>line \<in> set (wrap db 30 title). length line \<le> 30)
   \<and> (30 < length title \<and> strip title = title \<longrightarrow> 2 \<le> length (wrap db 30 title))
   \<and> (45 \<notin> set title \<and> (\<forall>u \<in> set (words6 title). length u \<le> 30)
        \<and> (\<forall>c \<in> set title. isspace c \<longrightarrow> ws6 c)
      \<longrightarrow> concat (map words6 (wrap db 30 title)) = words6 title)"
proof (intro conjI impI)
  show "\<forall>line \<in> set (wrap db 30 title). length line \<le> 30"
    by (rule wrap_line_len) simp
next
  assume "30 < length title \<and> strip title = title"
  then show "2 \<le> length (wrap db 30 title)"
    using wrap_two_lines[of 30 title db] by simp
next
  assume "45 \<notin> set title \<and> (\<forall>u \<in> set (words6 title). length u \<le> 30)
          \<and> (\<forall>c \<in> set title. isspace c \<longrightarrow> ws6 c)"
  then show "concat (map words6 (wrap db 30 title)) = words6 title"
    using wrap_words[of 30 title db] by simp
qed

theorem wrap_title_lines_witness:
  "30 < length (str ''This is a very long title that should wrap to multiple lines'')
   \<and> strip (str ''This is a very long title that should wrap to multiple lines'')
       = str ''This is a very long title that should wrap to multiple lines''
   \<and> 45 \<notin> set (str ''This is a very long title that should wrap to multiple lines'')
   \<and> wrap ascii_db 30 (str ''This is a very long title that should wrap to multiple lines'')
       = [str ''This is a very long title that'', str ''should wrap to multiple lines'']
   \<and> length (str ''This is a very long title that'') = 30
   \<and> length (str ''should wrap to multiple lines'') = 29
   \<and> concat (map words6 [str ''This is a very long title that'',
                            str ''should wrap to multiple lines''])
       = words6 (str ''This is a very long title that should wrap to multiple lines'')"
  using wrap_title_lines [of ascii_db
      "str ''This is a very long title that should wrap to multiple lines''"]
  by (simp add: demo_wrap_title demo_words_title)
     (simp add: str_def ws6_def strip_def lstrip_def rstrip_def isspace_def)

text \<open>
  Claim C2 as stated fails. A word of more than 30 characters is broken
  (\<open>break_long_words\<close>); a line may break after a hyphen inside a word
  (\<open>break_on_hyphens\<close>); and a title of more than 30 characters that ends in
  whitespace can give a single line.
\<close>

theorem wrap_title_counterexample:
  "30 < length (str ''Supercalifragilisticexpialidocious party'')
   \<and> wrap ascii_db 30 (str ''Supercalifragilisticexpialidocious party'')
       = [str ''Supercalifragilisticexpialidoc'', str ''ious party'']
   \<and> concat (map words6 (wrap ascii_db 30 (str ''Supercalifragilisticexpialidocious party'')))
       \<noteq> words6 (str ''Supercalifragilisticexpialidocious party'')
   \<and> wrap ascii_db 30 (str ''Conference on the state-of-the-art methods'')
       = [str ''Conference on the state-of-'', str ''the-art methods'']
   \<and> 30 < length (str ''aaaaaaaaaaaaaaaaaaaaaaaaaaaa     '')
   \<and> wrap ascii_db 30 (str ''aaaaaaaaaaaaaaaaaaaaaaaaaaaa     '')
       = [str ''aaaaaaaaaaaaaaaaaaaaaaaaaaaa'']"
  by (simp add: eval_defs)

end
